theory Spec2Isabelle
  imports Main "HOL-Library.Word" "HOL-Library.Multiset"
begin

section \<open>The striped hash map of \<^verbatim>\<open>concurrent_hash_map.h\<close>\<close>

text \<open>
  The class \<^verbatim>\<open>ConcurrentHashMap<K, V, Hash>\<close> is embedded sequentially: one public
  call runs from its first statement to its return with no other thread in between, so
  taking and releasing a mutex has no effect on the data and is left out; the vector
  of mutexes is kept as its length only.

  Conventions of the embedding:
  \<^item> \<^verbatim>\<open>int\<close> is 32 bits wide and \<^verbatim>\<open>size_t\<close> is 64 bits wide (LP64). The two
    \<^verbatim>\<open>int\<close> parameters of the constructor are \<open>32 word\<close>s read with \<open>sint\<close>; the
    conversion of an \<^verbatim>\<open>int\<close> to \<^verbatim>\<open>size_t\<close> and the \<^verbatim>\<open>size_t\<close> arithmetic of the
    constructor are written with their reduction modulo \<open>2 ^ 64\<close>.
  \<^item> The counters of a live map (\<^verbatim>\<open>size_\<close>, \<^verbatim>\<open>buckets_\<close>, \<^verbatim>\<open>mutex_.size()\<close>) are
    natural numbers: they count objects held in memory, so sums of them stay below
    \<open>2 ^ 64\<close> and do not wrap. The decrement of \<^verbatim>\<open>size_\<close> is the one place where a
    small value could wrap, and it is written out.
  \<^item> A hash value is a \<^verbatim>\<open>uint64_t\<close>: the hasher returns a \<open>64 word\<close>.
  \<^item> Undefined behaviour (a remainder by zero, an index past the end of the table, a
    signed overflow), the exception of \<^verbatim>\<open>At\<close> and the \<^verbatim>\<open>std::length_error\<close> that
    \<^verbatim>\<open>table_.resize\<close> throws in the constructor for a length no vector can have are
    values of the type \<open>error\<close>. Below that length, memory allocation is taken to
    succeed.
  \<^item> Isabelle rejects names that end in an underscore, so the members \<^verbatim>\<open>table_\<close>,
    \<^verbatim>\<open>size_\<close>, \<^verbatim>\<open>buckets_\<close> and \<^verbatim>\<open>hasher_\<close> carry the suffix \<open>_f\<close>, and
    \<^verbatim>\<open>mutex_.size()\<close> is the field \<open>mutex_size\<close>.
\<close>

subsection \<open>Data\<close>

datatype error =
    DivisionByZero    \<comment> \<open>\<^verbatim>\<open>hash % 0\<close>: undefined behaviour\<close>
  | IndexPastEnd      \<comment> \<open>\<^verbatim>\<open>table_[idx]\<close> with \<^verbatim>\<open>idx >= table_.size()\<close>: undefined behaviour\<close>
  | SignedOverflow    \<comment> \<open>overflow of an \<^verbatim>\<open>int\<close> expression: undefined behaviour\<close>
  | LengthError       \<comment> \<open>\<^verbatim>\<open>std::length_error\<close> of \<^verbatim>\<open>table_.resize\<close> past \<^verbatim>\<open>max_size()\<close>\<close>
  | OutOfRange        \<comment> \<open>\<^verbatim>\<open>std::out_of_range("No such element")\<close>\<close>

type_synonym ('k, 'v) chain = "('k \<times> 'v) list"

record ('k, 'v) concurrent_hash_map =
  table_f :: "('k, 'v) chain list"
  mutex_size :: nat
  size_f :: nat
  buckets_f :: nat
  hasher_f :: "'k \<Rightarrow> 64 word"

definition kUndefinedSize :: int where
  "kUndefinedSize = - 1"

definition kDefaultConcurrencyLevel :: int where
  "kDefaultConcurrencyLevel = 8"

definition kLoadFactor :: nat where
  "kLoadFactor = 3"

definition INT_MAX :: int where
  "INT_MAX = 2 ^ 31 - 1"

text \<open>Division of \<^verbatim>\<open>int\<close>s in C++ truncates towards zero.\<close>

definition int_div :: "int \<Rightarrow> int \<Rightarrow> int" where
  "int_div a b = sgn a * sgn b * (\<bar>a\<bar> div \<bar>b\<bar>)"

text \<open>The conversion of an \<^verbatim>\<open>int\<close> to \<^verbatim>\<open>size_t\<close>.\<close>

definition to_size_t :: "int \<Rightarrow> nat" where
  "to_size_t i = nat (i mod 2 ^ 64)"

subsection \<open>Construction\<close>

text \<open>
  \<^verbatim>\<open>table_.resize(n)\<close> on the empty table (lines 54 and 63) throws
  \<^verbatim>\<open>std::length_error\<close> when \<open>n\<close> exceeds \<^verbatim>\<open>max_size()\<close>. A bucket is a
  \<^verbatim>\<open>std::vector\<close> of three pointers, 24 bytes, so no implementation allows more than
  \<open>(2 ^ 64 - 1) div 24\<close> of them. The lengths the constructor can ask for are either
  below \<open>2 ^ 32\<close> or at least \<open>2 ^ 64 - 2 ^ 31\<close>, so every bound between these two
  gives the same function.
\<close>

definition table_max_size :: nat where
  "table_max_size = (2 ^ 64 - 1) div 24"

definition table_resize :: "nat \<Rightarrow> error + ('k, 'v) chain list" where
  "table_resize n = (if table_max_size < n then Inl LengthError else Inr (replicate n []))"

text \<open>
  Lines 49 to 70. The test against \<^verbatim>\<open>kUndefinedSize\<close> comes before the division, so
  only the argument \<open>-1\<close> itself selects the first branch. In the second branch
  \<^verbatim>\<open>expected_size\<close> is an \<^verbatim>\<open>int\<close> and \<^verbatim>\<open>threads_cnt\<close> a \<^verbatim>\<open>size_t\<close>, so the
  remainder and the sum are computed after converting \<^verbatim>\<open>expected_size\<close> to
  \<^verbatim>\<open>size_t\<close>. Line 69 reads the bucket count off the table.
\<close>

definition ConcurrentHashMap ::
  "32 word \<Rightarrow> 32 word \<Rightarrow> ('k \<Rightarrow> 64 word) \<Rightarrow> error + ('k, 'v) concurrent_hash_map" where
  "ConcurrentHashMap expected_size expected_threads_count hasher =
    (let threads_cnt = to_size_t (max 8 (sint expected_threads_count)) in
     if sint expected_size = kUndefinedSize then
       (case table_resize threads_cnt of
          Inl e \<Rightarrow> Inl e
        | Inr table \<Rightarrow>
            Inr \<lparr>table_f = table, mutex_size = threads_cnt, size_f = 0,
                 buckets_f = length table, hasher_f = hasher\<rparr>)
     else if INT_MAX < sint expected_size + int kLoadFactor then Inl SignedOverflow
     else
       let expected_size2 =
             to_size_t (int_div (sint expected_size + int kLoadFactor - 1) (int kLoadFactor));
           size =
             (if expected_size2 mod threads_cnt = 0 then expected_size2
              else (expected_size2 + threads_cnt - expected_size2 mod threads_cnt) mod 2 ^ 64)
       in (case table_resize size of
             Inl e \<Rightarrow> Inl e
           | Inr table \<Rightarrow>
               Inr \<lparr>table_f = table, mutex_size = threads_cnt, size_f = 0,
                    buckets_f = length table, hasher_f = hasher\<rparr>))"

text \<open>Lines 41 to 47: the two delegating constructors.\<close>

definition ConcurrentHashMap_default ::
  "('k \<Rightarrow> 64 word) \<Rightarrow> error + ('k, 'v) concurrent_hash_map" where
  "ConcurrentHashMap_default hasher =
     ConcurrentHashMap (word_of_int kUndefinedSize) (word_of_int kDefaultConcurrencyLevel) hasher"

definition ConcurrentHashMap_sized ::
  "32 word \<Rightarrow> ('k \<Rightarrow> 64 word) \<Rightarrow> error + ('k, 'v) concurrent_hash_map" where
  "ConcurrentHashMap_sized expected_size hasher =
     ConcurrentHashMap expected_size (word_of_int kDefaultConcurrencyLevel) hasher"

subsection \<open>The loops over one chain\<close>

text \<open>Lines 78 to 82: is there an element with this key?\<close>

fun chain_has :: "'k \<Rightarrow> ('k, 'v) chain \<Rightarrow> bool" where
  "chain_has key [] = False"
| "chain_has key (el # els) = (if fst el = key then True else chain_has key els)"

text \<open>Lines 99 to 105: the position of the first element with this key, counted from
  \<open>el_idx\<close>; the length of the chain when there is none.\<close>

fun chain_index :: "'k \<Rightarrow> ('k, 'v) chain \<Rightarrow> nat \<Rightarrow> nat" where
  "chain_index key [] el_idx = el_idx"
| "chain_index key (el # els) el_idx =
     (if fst el = key then el_idx else chain_index key els (Suc el_idx))"

text \<open>Lines 132 to 137 and 145 to 150: the value of the first element with this key.\<close>

fun chain_value :: "'k \<Rightarrow> ('k, 'v) chain \<Rightarrow> 'v option" where
  "chain_value key [] = None"
| "chain_value key (el # els) = (if fst el = key then Some (snd el) else chain_value key els)"

subsection \<open>Growth\<close>

text \<open>The test of lines 17 and 88, on \<^verbatim>\<open>size_t\<close> values; the caller has excluded a
  zero divisor.\<close>

definition load_breach :: "nat \<Rightarrow> nat \<Rightarrow> bool" where
  "load_breach sz bk = (kLoadFactor < (sz + bk - 1) div bk)"

text \<open>Lines 26 to 30, the inner loop: each element of one old chain is pushed to the back
  of its chain in \<open>temp\<close>.\<close>

fun move_chain ::
  "('k \<Rightarrow> 64 word) \<Rightarrow> nat \<Rightarrow> ('k, 'v) chain \<Rightarrow> ('k, 'v) chain list \<Rightarrow> ('k, 'v) chain list" where
  "move_chain hasher new_bucket_cnt [] temp = temp"
| "move_chain hasher new_bucket_cnt (el # els) temp =
     (let idx = unat (hasher (fst el)) mod new_bucket_cnt
      in move_chain hasher new_bucket_cnt els (temp[idx := temp ! idx @ [el]]))"

text \<open>Lines 25 to 31, the outer loop over the old table.\<close>

fun move_table ::
  "('k \<Rightarrow> 64 word) \<Rightarrow> nat \<Rightarrow> ('k, 'v) chain list \<Rightarrow> ('k, 'v) chain list \<Rightarrow> ('k, 'v) chain list" where
  "move_table hasher new_bucket_cnt [] temp = temp"
| "move_table hasher new_bucket_cnt (vec # vecs) temp =
     move_table hasher new_bucket_cnt vecs (move_chain hasher new_bucket_cnt vec temp)"

text \<open>Lines 19 to 23.\<close>

definition new_bucket_count :: "('k, 'v) concurrent_hash_map \<Rightarrow> nat" where
  "new_bucket_count s =
     (if size_f s mod mutex_size s = 0 then size_f s
      else size_f s + mutex_size s - size_f s mod mutex_size s)"

text \<open>
  Lines 13 to 38. When the test of line 17 holds, \<^verbatim>\<open>size_\<close> is at least 4, so the new
  bucket count is not zero and the remainder of line 28 is defined.
\<close>

definition Rehash :: "('k, 'v) concurrent_hash_map \<Rightarrow> error + ('k, 'v) concurrent_hash_map" where
  "Rehash s =
    (if buckets_f s = 0 then Inl DivisionByZero
     else if load_breach (size_f s) (buckets_f s) then
       (if mutex_size s = 0 then Inl DivisionByZero
        else
          let new_bucket_cnt = new_bucket_count s;
              temp = move_table (hasher_f s) new_bucket_cnt (table_f s)
                       (replicate new_bucket_cnt [])
          in Inr (s\<lparr>table_f := temp, buckets_f := new_bucket_cnt\<rparr>))
     else Inr s)"

subsection \<open>The public operations\<close>

text \<open>The lock index of lines 74, 96, 129 and 142, and the bucket index of lines 77, 98,
  131 and 144.\<close>

definition m_idx :: "('k, 'v) concurrent_hash_map \<Rightarrow> 'k \<Rightarrow> nat" where
  "m_idx s key = unat (hasher_f s key) mod mutex_size s"

definition idx :: "('k, 'v) concurrent_hash_map \<Rightarrow> 'k \<Rightarrow> nat" where
  "idx s key = unat (hasher_f s key) mod buckets_f s"

text \<open>What every single-key operation does before it reads its chain: the two remainders
  and the subscript.\<close>

definition locate :: "('k, 'v) concurrent_hash_map \<Rightarrow> 'k \<Rightarrow> error + nat" where
  "locate s key =
    (if mutex_size s = 0 then Inl DivisionByZero
     else if buckets_f s = 0 then Inl DivisionByZero
     else if length (table_f s) \<le> idx s key then Inl IndexPastEnd
     else Inr (idx s key))"

text \<open>Lines 72 to 92.\<close>

definition Insert ::
  "'k \<Rightarrow> 'v \<Rightarrow> ('k, 'v) concurrent_hash_map \<Rightarrow> error + (bool \<times> ('k, 'v) concurrent_hash_map)" where
  "Insert key val s =
    (case locate s key of
       Inl e \<Rightarrow> Inl e
     | Inr i \<Rightarrow>
         if chain_has key (table_f s ! i) then Inr (False, s)
         else
           let s1 = s\<lparr>table_f := (table_f s)[i := table_f s ! i @ [(key, val)]],
                      size_f := size_f s + 1\<rparr>;
               size_copy = size_f s1;
               buckets_copy = buckets_f s1
           in if load_breach size_copy buckets_copy then
                (case Rehash s1 of Inl e \<Rightarrow> Inl e | Inr s2 \<Rightarrow> Inr (True, s2))
              else Inr (True, s1))"

text \<open>Lines 94 to 112. \<^verbatim>\<open>size_--\<close> on zero wraps to \<open>2 ^ 64 - 1\<close>.\<close>

definition Erase ::
  "'k \<Rightarrow> ('k, 'v) concurrent_hash_map \<Rightarrow> error + (bool \<times> ('k, 'v) concurrent_hash_map)" where
  "Erase key s =
    (case locate s key of
       Inl e \<Rightarrow> Inl e
     | Inr i \<Rightarrow>
         let el_idx = chain_index key (table_f s ! i) 0 in
         if el_idx = length (table_f s ! i) then Inr (False, s)
         else Inr (True,
                s\<lparr>table_f := (table_f s)[i := take el_idx (table_f s ! i)
                                              @ drop (Suc el_idx) (table_f s ! i)],
                  size_f := (if size_f s = 0 then 2 ^ 64 - 1 else size_f s - 1)\<rparr>))"

text \<open>Lines 114 to 125.\<close>

definition Clear :: "('k, 'v) concurrent_hash_map \<Rightarrow> ('k, 'v) concurrent_hash_map" where
  "Clear s = s\<lparr>table_f := map (\<lambda>vec. []) (table_f s), size_f := 0\<rparr>"

text \<open>Lines 127 to 138. The pair \<^verbatim>\<open>{true, el.second}\<close> is \<open>Some\<close> of the value, the
  pair \<^verbatim>\<open>{false, {}}\<close> is \<open>None\<close>. The method is \<^verbatim>\<open>const\<close>: it returns no state.\<close>

definition Find :: "'k \<Rightarrow> ('k, 'v) concurrent_hash_map \<Rightarrow> error + 'v option" where
  "Find key s =
    (case locate s key of
       Inl e \<Rightarrow> Inl e
     | Inr i \<Rightarrow> Inr (chain_value key (table_f s ! i)))"

text \<open>Lines 140 to 151. The method is \<^verbatim>\<open>const\<close>: it returns no state.\<close>

definition At :: "'k \<Rightarrow> ('k, 'v) concurrent_hash_map \<Rightarrow> error + 'v" where
  "At key s =
    (case locate s key of
       Inl e \<Rightarrow> Inl e
     | Inr i \<Rightarrow>
         (case chain_value key (table_f s ! i) of
            Some v \<Rightarrow> Inr v
          | None \<Rightarrow> Inl OutOfRange))"

text \<open>Lines 153 to 155.\<close>

definition Size :: "('k, 'v) concurrent_hash_map \<Rightarrow> nat" where
  "Size s = size_f s"

subsection \<open>Sequences of calls\<close>

text \<open>The calls that change the map. A sequence of calls stops at the first one whose
  behaviour is undefined.\<close>

datatype ('k, 'v) call = Call_Insert 'k 'v | Call_Erase 'k | Call_Clear

fun call_state ::
  "('k, 'v) call \<Rightarrow> ('k, 'v) concurrent_hash_map \<Rightarrow> error + ('k, 'v) concurrent_hash_map" where
  "call_state (Call_Insert key val) s =
     (case Insert key val s of Inl e \<Rightarrow> Inl e | Inr r \<Rightarrow> Inr (snd r))"
| "call_state (Call_Erase key) s =
     (case Erase key s of Inl e \<Rightarrow> Inl e | Inr r \<Rightarrow> Inr (snd r))"
| "call_state Call_Clear s = Inr (Clear s)"

fun run ::
  "('k, 'v) call list \<Rightarrow> ('k, 'v) concurrent_hash_map \<Rightarrow> error + ('k, 'v) concurrent_hash_map" where
  "run [] s = Inr s"
| "run (c # cs) s = (case call_state c s of Inl e \<Rightarrow> Inl e | Inr s1 \<Rightarrow> run cs s1)"

subsection \<open>The map a table holds, and the invariant of the representation\<close>

text \<open>The key to value mapping read off the chains, in table order.\<close>

definition contents :: "('k, 'v) concurrent_hash_map \<Rightarrow> 'k \<rightharpoonup> 'v" where
  "contents s = map_of (concat (table_f s))"

text \<open>
  What construction establishes and every call keeps: \<^verbatim>\<open>buckets_\<close> is the length of the
  table, \<^verbatim>\<open>size_\<close> is the number of stored elements, every element sits in the chain its
  key hashes to, no key is stored twice, and there is at least one mutex.
\<close>

definition homed :: "('k, 'v) concurrent_hash_map \<Rightarrow> bool" where
  "homed s =
     (\<forall>i < length (table_f s). \<forall>el \<in> set (table_f s ! i).
        unat (hasher_f s (fst el)) mod buckets_f s = i)"

definition invar :: "('k, 'v) concurrent_hash_map \<Rightarrow> bool" where
  "invar s =
     (buckets_f s = length (table_f s) \<and>
      size_f s = sum_list (map length (table_f s)) \<and>
      homed s \<and>
      distinct (map fst (concat (table_f s))) \<and>
      0 < mutex_size s)"

subsection \<open>Sample maps\<close>

text \<open>Concrete maps over \<open>nat\<close> keys, hashed by their own value as \<^verbatim>\<open>std::hash<int>\<close>
  does. The first is what three insertions leave in a default-constructed map. The second
  is the state inside \<^verbatim>\<open>Insert\<close> between line 85 and line 88 when the 25th key has
  just been stored in a table of 8 buckets.\<close>

definition key_hash :: "nat \<Rightarrow> 64 word" where
  "key_hash k = word_of_nat k"

definition sample_map :: "(nat, string) concurrent_hash_map" where
  "sample_map =
     \<lparr>table_f = [[(8, ''h'')], [(1, ''a''), (9, ''i'')], [], [], [], [], [], []],
      mutex_size = 8, size_f = 3, buckets_f = 8, hasher_f = key_hash\<rparr>"

definition crowded_map :: "(nat, string) concurrent_hash_map" where
  "crowded_map =
     \<lparr>table_f = [[(0, ''a''), (8, ''i''), (16, ''q''), (24, ''y'')],
                 [(1, ''b''), (9, ''j''), (17, ''r'')],
                 [(2, ''c''), (10, ''k''), (18, ''s'')],
                 [(3, ''d''), (11, ''l''), (19, ''t'')],
                 [(4, ''e''), (12, ''m''), (20, ''u'')],
                 [(5, ''f''), (13, ''n''), (21, ''v'')],
                 [(6, ''g''), (14, ''o''), (22, ''w'')],
                 [(7, ''h''), (15, ''p''), (23, ''x'')]],
      mutex_size = 8, size_f = 25, buckets_f = 8, hasher_f = key_hash\<rparr>"

text \<open>What the constructor returns for \<^verbatim>\<open>expected_size = 0\<close> and eight threads.\<close>

definition bucketless_map :: "(nat, string) concurrent_hash_map" where
  "bucketless_map =
     \<lparr>table_f = [], mutex_size = 8, size_f = 0, buckets_f = 0, hasher_f = key_hash\<rparr>"

text \<open>What the constructor returns for \<^verbatim>\<open>expected_size = -5\<close> and nine threads.\<close>

definition skewed_map :: "(nat, string) concurrent_hash_map" where
  "skewed_map =
     \<lparr>table_f = [[], []], mutex_size = 9, size_f = 0, buckets_f = 2, hasher_f = key_hash\<rparr>"

subsection \<open>Facts about the chain loops\<close>

lemma chain_has_iff: "chain_has key c \<longleftrightarrow> key \<in> fst ` set c"
  by (induction c) auto

lemma chain_value_map_of: "chain_value key c = map_of c key"
  by (induction c) auto

lemma chain_index_shift: "chain_index key c n = n + chain_index key c 0"
proof (induction c arbitrary: n)
  case Nil
  then show ?case by simp
next
  case (Cons el els)
  have "chain_index key els (Suc n) = Suc n + chain_index key els 0"
    by (rule Cons.IH)
  moreover have "chain_index key els (Suc 0) = Suc 0 + chain_index key els 0"
    by (rule Cons.IH)
  ultimately show ?case by simp
qed

lemma chain_index_le: "chain_index key c 0 \<le> length c"
proof (induction c)
  case Nil
  then show ?case by simp
next
  case (Cons el els)
  then show ?case using chain_index_shift [of key els "Suc 0"] by simp
qed

lemma chain_index_end_iff: "chain_index key c 0 = length c \<longleftrightarrow> key \<notin> fst ` set c"
proof (induction c)
  case Nil
  then show ?case by simp
next
  case (Cons el els)
  show ?case
  proof (cases "fst el = key")
    case True
    then show ?thesis by auto
  next
    case False
    with Cons show ?thesis using chain_index_shift [of key els "Suc 0"] by auto
  qed
qed

lemma filter_absent_key: "key \<notin> fst ` set c \<Longrightarrow> filter (\<lambda>el. fst el \<noteq> key) c = c"
  by (induction c) auto

lemma erase_chain_filter:
  "distinct (map fst c) \<Longrightarrow>
   take (chain_index key c 0) c @ drop (Suc (chain_index key c 0)) c =
   filter (\<lambda>el. fst el \<noteq> key) c"
proof (induction c)
  case Nil
  then show ?case by simp
next
  case (Cons el els)
  show ?case
  proof (cases "fst el = key")
    case True
    with Cons.prems have "key \<notin> fst ` set els" by auto
    with True show ?thesis by (simp add: filter_absent_key)
  next
    case False
    with Cons show ?thesis using chain_index_shift [of key els "Suc 0"] by simp
  qed
qed

lemma map_of_filter_other: "map_of (filter (\<lambda>el. fst el \<noteq> key) c) = (map_of c)(key := None)"
  by (induction c) (auto simp: fun_eq_iff)

lemma length_filter_one:
  "distinct (map fst c) \<Longrightarrow> key \<in> fst ` set c \<Longrightarrow>
   Suc (length (filter (\<lambda>el. fst el \<noteq> key) c)) = length c"
proof (induction c)
  case Nil
  then show ?case by simp
next
  case (Cons el els)
  show ?case
  proof (cases "fst el = key")
    case True
    with Cons.prems have "key \<notin> fst ` set els" by auto
    with True show ?thesis by (simp add: filter_absent_key)
  next
    case False
    with Cons show ?thesis by auto
  qed
qed

subsection \<open>Facts about one bucket inside the table\<close>

lemma concat_split:
  "i < length t \<Longrightarrow> concat t = concat (take i t) @ t ! i @ concat (drop (Suc i) t)"
proof -
  assume "i < length t"
  then have "t = take i t @ t ! i # drop (Suc i) t" by (rule id_take_nth_drop)
  then have "concat t = concat (take i t @ t ! i # drop (Suc i) t)" by simp
  then show ?thesis by simp
qed

lemma concat_update:
  "i < length t \<Longrightarrow> concat (t[i := c]) = concat (take i t) @ c @ concat (drop (Suc i) t)"
  by (simp add: upd_conv_take_nth_drop)

lemma mset_concat_push:
  "i < length t \<Longrightarrow> mset (concat (t[i := t ! i @ ys])) = mset (concat t) + mset ys"
proof -
  assume i: "i < length t"
  have "mset (concat t) = mset (concat (take i t)) + mset (t ! i) + mset (concat (drop (Suc i) t))"
    using concat_split [OF i] by (metis mset_append add.assoc)
  then show ?thesis by (simp add: concat_update [OF i])
qed

lemma set_concat_nth: "set (concat t) = (\<Union>j \<in> {..<length t}. set (t ! j))"
proof -
  have "set t = (\<lambda>j. t ! j) ` {..<length t}"
    by (auto simp: in_set_conv_nth)
  then have "(\<Union>c \<in> set t. set c) = (\<Union>j \<in> {..<length t}. set (t ! j))"
    by simp
  then show ?thesis by simp
qed

subsection \<open>Facts about growth\<close>

lemma load_breach_iff: "0 < bk \<Longrightarrow> load_breach sz bk \<longleftrightarrow> 3 * bk < sz"
proof -
  assume bk: "0 < bk"
  have "3 < (sz + bk - 1) div bk \<longleftrightarrow> 4 \<le> (sz + bk - 1) div bk" by auto
  also have "\<dots> \<longleftrightarrow> 4 * bk \<le> sz + bk - 1"
    using bk by (simp add: less_eq_div_iff_mult_less_eq)
  also have "\<dots> \<longleftrightarrow> 3 * bk < sz" using bk by auto
  finally show ?thesis by (simp add: load_breach_def kLoadFactor_def)
qed

lemma round_up_eq:
  "(sz::nat) + p - sz mod p = p * Suc (sz div p)"
proof -
  have "p * (sz div p) + sz mod p = sz" by (rule mult_div_mod_eq)
  moreover have "sz mod p \<le> sz" by (rule mod_less_eq_dividend)
  ultimately have "sz + p - sz mod p = p * (sz div p) + p" by linarith
  then show ?thesis by simp
qed

lemma new_bucket_count_dvd: "mutex_size s dvd new_bucket_count s"
proof (cases "size_f s mod mutex_size s = 0")
  case True
  then show ?thesis by (auto simp: new_bucket_count_def)
next
  case False
  have "size_f s + mutex_size s - size_f s mod mutex_size s =
        mutex_size s * Suc (size_f s div mutex_size s)"
    by (rule round_up_eq)
  then have "mutex_size s dvd size_f s + mutex_size s - size_f s mod mutex_size s"
    by (metis dvd_triv_left)
  with False show ?thesis by (simp add: new_bucket_count_def)
qed

lemma new_bucket_count_ge: "0 < mutex_size s \<Longrightarrow> size_f s \<le> new_bucket_count s"
proof -
  assume "0 < mutex_size s"
  then have "size_f s mod mutex_size s < mutex_size s" by simp
  then have "size_f s \<le> size_f s + mutex_size s - size_f s mod mutex_size s" by linarith
  then show ?thesis by (simp add: new_bucket_count_def)
qed

lemma new_bucket_count_least:
  assumes "mutex_size s dvd m" and "size_f s \<le> m"
  shows "new_bucket_count s \<le> m"
proof (cases "size_f s mod mutex_size s = 0")
  case True
  with assms show ?thesis by (simp add: new_bucket_count_def)
next
  case False
  from assms(1) obtain q where q: "m = mutex_size s * q" by (auto simp: dvd_def)
  let ?p = "mutex_size s"
  have ne: "size_f s \<noteq> m" using False q by auto
  with assms(2) have lt: "size_f s < ?p * q" using q by simp
  have "size_f s div ?p < q"
  proof (rule ccontr)
    assume "\<not> size_f s div ?p < q"
    then have "q \<le> size_f s div ?p" by simp
    then have "?p * q \<le> ?p * (size_f s div ?p)" by simp
    also have "\<dots> \<le> size_f s" by simp
    finally show False using lt by simp
  qed
  then have "Suc (size_f s div ?p) \<le> q" by simp
  then have "?p * Suc (size_f s div ?p) \<le> ?p * q" by (rule mult_le_mono2)
  moreover have "size_f s + ?p - size_f s mod ?p = ?p * Suc (size_f s div ?p)"
    by (rule round_up_eq)
  ultimately show ?thesis using False q by (simp add: new_bucket_count_def)
qed

lemma move_chain_length: "length (move_chain h n c temp) = length temp"
  by (induction c arbitrary: temp) (simp_all add: Let_def)

lemma move_table_length: "length (move_table h n t temp) = length temp"
  by (induction t arbitrary: temp) (simp_all add: move_chain_length)

lemma move_chain_mset:
  "0 < n \<Longrightarrow> length temp = n \<Longrightarrow>
   mset (concat (move_chain h n c temp)) = mset (concat temp) + mset c"
proof (induction c arbitrary: temp)
  case Nil
  then show ?case by simp
next
  case (Cons el els)
  let ?i = "unat (h (fst el)) mod n"
  let ?temp = "temp[?i := temp ! ?i @ [el]]"
  from Cons.prems have i: "?i < length temp" by simp
  have "mset (concat (move_chain h n els ?temp)) = mset (concat ?temp) + mset els"
    using Cons.prems by (intro Cons.IH) simp_all
  also have "mset (concat ?temp) = mset (concat temp) + mset [el]"
    by (rule mset_concat_push [OF i])
  finally show ?case by (simp add: Let_def)
qed

lemma move_table_mset:
  "0 < n \<Longrightarrow> length temp = n \<Longrightarrow>
   mset (concat (move_table h n t temp)) = mset (concat temp) + mset (concat t)"
proof (induction t arbitrary: temp)
  case Nil
  then show ?case by simp
next
  case (Cons vec vecs)
  have "mset (concat (move_table h n vecs (move_chain h n vec temp))) =
        mset (concat (move_chain h n vec temp)) + mset (concat vecs)"
    using Cons.prems by (intro Cons.IH) (simp_all add: move_chain_length)
  then show ?case using Cons.prems by (simp add: move_chain_mset)
qed

lemma push_homed:
  assumes "i < length temp" and "f el = i"
    and "\<forall>j<length temp. \<forall>x \<in> set (temp ! j). f x = j"
  shows "\<forall>j<length temp. \<forall>x \<in> set (temp[i := temp ! i @ [el]] ! j). f x = j"
proof (intro allI impI ballI)
  fix j x
  assume j: "j < length temp" and x: "x \<in> set (temp[i := temp ! i @ [el]] ! j)"
  show "f x = j"
  proof (cases "j = i")
    case True
    with x assms(1) have "x \<in> set (temp ! i) \<or> x = el" by auto
    with True assms show ?thesis by blast
  next
    case False
    with x have "x \<in> set (temp ! j)" by simp
    with j assms(3) show ?thesis by blast
  qed
qed

lemma move_chain_homed:
  "0 < n \<Longrightarrow> length temp = n \<Longrightarrow>
   \<forall>j<length temp. \<forall>el \<in> set (temp ! j). unat (h (fst el)) mod n = j \<Longrightarrow>
   \<forall>j<length temp. \<forall>el \<in> set (move_chain h n c temp ! j). unat (h (fst el)) mod n = j"
proof (induction c arbitrary: temp)
  case Nil
  from Nil.prems(3) show ?case by (simp only: move_chain.simps)
next
  case (Cons el els)
  let ?i = "unat (h (fst el)) mod n"
  let ?temp = "temp[?i := temp ! ?i @ [el]]"
  from Cons.prems(1,2) have i: "?i < length temp" by simp
  have "\<forall>j<length temp. \<forall>x \<in> set (?temp ! j). unat (h (fst x)) mod n = j"
    using i refl Cons.prems(3) by (rule push_homed)
  then have a: "\<forall>j<length ?temp. \<forall>x \<in> set (?temp ! j). unat (h (fst x)) mod n = j"
    by (simp only: length_list_update)
  have l: "length ?temp = n" using Cons.prems(2) by simp
  have "\<forall>j<length ?temp. \<forall>x \<in> set (move_chain h n els ?temp ! j).
          unat (h (fst x)) mod n = j"
    using Cons.prems(1) l a by (rule Cons.IH)
  then show ?case by (simp only: length_list_update move_chain.simps Let_def)
qed

lemma move_table_homed:
  "0 < n \<Longrightarrow> length temp = n \<Longrightarrow>
   \<forall>j<length temp. \<forall>el \<in> set (temp ! j). unat (h (fst el)) mod n = j \<Longrightarrow>
   \<forall>j<length temp. \<forall>el \<in> set (move_table h n t temp ! j). unat (h (fst el)) mod n = j"
proof (induction t arbitrary: temp)
  case Nil
  from Nil.prems(3) show ?case by (simp only: move_table.simps)
next
  case (Cons vec vecs)
  let ?temp = "move_chain h n vec temp"
  have l: "length ?temp = n" using Cons.prems(2) by (simp add: move_chain_length)
  have "\<forall>j<length temp. \<forall>x \<in> set (?temp ! j). unat (h (fst x)) mod n = j"
    using Cons.prems by (rule move_chain_homed)
  then have a: "\<forall>j<length ?temp. \<forall>x \<in> set (?temp ! j). unat (h (fst x)) mod n = j"
    by (simp only: move_chain_length)
  have "\<forall>j<length ?temp. \<forall>x \<in> set (move_table h n vecs ?temp ! j).
          unat (h (fst x)) mod n = j"
    using Cons.prems(1) l a by (rule Cons.IH)
  then show ?case by (simp only: move_chain_length move_table.simps)
qed

lemma mset_distinct_keys:
  "mset xs = mset ys \<Longrightarrow> distinct (map fst xs) = distinct (map fst ys)"
proof -
  assume "mset xs = mset ys"
  then have "mset (map fst xs) = mset (map fst ys)" by simp
  then show ?thesis by (rule mset_eq_imp_distinct_iff)
qed

lemma sum_list_length_concat: "sum_list (map length t) = length (concat t)"
  by (simp add: length_concat)

subsection \<open>Facts about the invariant\<close>

lemma homedD:
  "homed s \<Longrightarrow> j < length (table_f s) \<Longrightarrow> el \<in> set (table_f s ! j) \<Longrightarrow>
   unat (hasher_f s (fst el)) mod buckets_f s = j"
  unfolding homed_def by blast

lemma invar_homed: "invar s \<Longrightarrow> homed s"
  unfolding invar_def by blast

lemma invar_buckets: "invar s \<Longrightarrow> buckets_f s = length (table_f s)"
  unfolding invar_def by blast

lemma invar_size: "invar s \<Longrightarrow> size_f s = sum_list (map length (table_f s))"
  unfolding invar_def by blast

lemma invar_distinct: "invar s \<Longrightarrow> distinct (map fst (concat (table_f s)))"
  unfolding invar_def by blast

lemma invar_mutex: "invar s \<Longrightarrow> 0 < mutex_size s"
  unfolding invar_def by blast

lemma idx_less: "0 < buckets_f s \<Longrightarrow> idx s key < buckets_f s"
  by (simp add: idx_def)

lemma idx_in_table: "invar s \<Longrightarrow> 0 < buckets_f s \<Longrightarrow> idx s key < length (table_f s)"
  using idx_less [of s key] invar_buckets [of s] by simp

lemma locate_ok: "invar s \<Longrightarrow> 0 < buckets_f s \<Longrightarrow> locate s key = Inr (idx s key)"
  using idx_in_table [of s key] invar_mutex [of s] by (simp add: locate_def)

lemma stored_in_home:
  assumes "invar s" and "el \<in> set (concat (table_f s))"
  shows "el \<in> set (table_f s ! idx s (fst el))"
proof -
  from assms(2) obtain j where j: "j < length (table_f s)" and el: "el \<in> set (table_f s ! j)"
    unfolding set_concat_nth by blast
  have "unat (hasher_f s (fst el)) mod buckets_f s = j"
    using invar_homed [OF assms(1)] j el by (rule homedD)
  then have "idx s (fst el) = j" by (simp add: idx_def)
  with el show ?thesis by simp
qed

lemma home_in_table:
  assumes "invar s" and "0 < buckets_f s" and "el \<in> set (table_f s ! idx s key)"
  shows "el \<in> set (concat (table_f s))"
proof -
  have "idx s key < length (table_f s)" using assms(1,2) by (rule idx_in_table)
  with assms(3) show ?thesis unfolding set_concat_nth by blast
qed

lemma key_in_home_iff:
  assumes "invar s" and "0 < buckets_f s"
  shows "key \<in> fst ` set (table_f s ! idx s key) \<longleftrightarrow> key \<in> fst ` set (concat (table_f s))"
proof
  assume "key \<in> fst ` set (table_f s ! idx s key)"
  then obtain el where el: "el \<in> set (table_f s ! idx s key)" and k: "key = fst el"
    by (rule imageE)
  have "el \<in> set (concat (table_f s))" using assms el by (rule home_in_table)
  with k show "key \<in> fst ` set (concat (table_f s))" by (rule image_eqI)
next
  assume "key \<in> fst ` set (concat (table_f s))"
  then obtain el where el: "el \<in> set (concat (table_f s))" and k: "key = fst el"
    by (rule imageE)
  have "el \<in> set (table_f s ! idx s (fst el))" using assms(1) el by (rule stored_in_home)
  then have "el \<in> set (table_f s ! idx s key)" using k by simp
  with k show "key \<in> fst ` set (table_f s ! idx s key)" by (rule image_eqI)
qed

lemma distinct_home:
  assumes "invar s" and "0 < buckets_f s"
  shows "distinct (map fst (table_f s ! idx s key))"
proof -
  have i: "idx s key < length (table_f s)" using assms by (rule idx_in_table)
  have "distinct (map fst (concat (table_f s)))" using assms(1) by (rule invar_distinct)
  then show ?thesis by (subst (asm) concat_split [OF i]) simp
qed

lemma home_contents:
  assumes "invar s" and "0 < buckets_f s"
  shows "map_of (table_f s ! idx s key) key = contents s key"
proof (cases "map_of (table_f s ! idx s key) key")
  case None
  then have "key \<notin> fst ` set (table_f s ! idx s key)" by (simp add: map_of_eq_None_iff)
  then have "key \<notin> fst ` set (concat (table_f s))" using key_in_home_iff [OF assms] by simp
  then have "map_of (concat (table_f s)) key = None" by (simp add: map_of_eq_None_iff)
  with None show ?thesis by (simp add: contents_def)
next
  case (Some v)
  then have "(key, v) \<in> set (table_f s ! idx s key)" by (rule map_of_SomeD)
  then have "(key, v) \<in> set (concat (table_f s))" using home_in_table [OF assms] by blast
  then have "map_of (concat (table_f s)) key = Some v"
    using invar_distinct [OF assms(1)] by simp
  with Some show ?thesis by (simp add: contents_def)
qed

lemma Find_contents: "invar s \<Longrightarrow> 0 < buckets_f s \<Longrightarrow> Find key s = Inr (contents s key)"
  by (simp add: Find_def locate_ok chain_value_map_of home_contents)

lemma At_contents:
  "invar s \<Longrightarrow> 0 < buckets_f s \<Longrightarrow>
   At key s = (case contents s key of Some v \<Rightarrow> Inr v | None \<Rightarrow> Inl OutOfRange)"
  by (simp add: At_def locate_ok chain_value_map_of home_contents)

lemma contents_Some_iff:
  "invar s \<Longrightarrow> contents s key = Some v \<longleftrightarrow> (key, v) \<in> set (concat (table_f s))"
  using invar_distinct [of s] by (simp add: contents_def)

lemma contents_None_iff:
  "contents s key = None \<longleftrightarrow> key \<notin> fst ` set (concat (table_f s))"
  by (simp add: contents_def map_of_eq_None_iff)

subsection \<open>The critical section of Insert\<close>

lemma homed_table:
  "homed s \<longleftrightarrow>
   (\<forall>j<length (table_f s). \<forall>el \<in> set (table_f s ! j).
      (\<lambda>x. unat (hasher_f s (fst x)) mod buckets_f s) el = j)"
  by (simp only: homed_def)

lemma mset_push:
  assumes "invar s" and "0 < buckets_f s"
  shows "mset (concat ((table_f s)[idx s key := table_f s ! idx s key @ [(key, val)]])) =
         add_mset (key, val) (mset (concat (table_f s)))"
proof -
  have "idx s key < length (table_f s)" using assms by (rule idx_in_table)
  then show ?thesis by (simp add: mset_concat_push)
qed

lemma invar_push:
  assumes inv: "invar s" and pos: "0 < buckets_f s"
    and absent: "key \<notin> fst ` set (table_f s ! idx s key)"
  shows "invar (s\<lparr>table_f := (table_f s)[idx s key := table_f s ! idx s key @ [(key, val)]],
                  size_f := size_f s + 1\<rparr>)"
    (is "invar ?s1")
proof -
  let ?t = "table_f s" and ?i = "idx s key"
  let ?t1 = "?t[?i := ?t ! ?i @ [(key, val)]]"
  let ?f = "\<lambda>x. unat (hasher_f s (fst x)) mod buckets_f s"
  have i: "?i < length ?t" using inv pos by (rule idx_in_table)
  have m: "mset (concat ?t1) = add_mset (key, val) (mset (concat ?t))"
    using inv pos by (rule mset_push)
  have "buckets_f ?s1 = length (table_f ?s1)"
    using invar_buckets [OF inv] by simp
  moreover have "size_f ?s1 = sum_list (map length (table_f ?s1))"
  proof -
    have "length (concat ?t1) = Suc (length (concat ?t))"
      using arg_cong [OF m, of size] by simp
    then show ?thesis using invar_size [OF inv] by (simp add: sum_list_length_concat)
  qed
  moreover have "homed ?s1"
  proof -
    have h: "\<forall>j<length ?t. \<forall>x \<in> set (?t ! j). ?f x = j"
      using invar_homed [OF inv] by (simp only: homed_table)
    have k: "?f (key, val) = ?i" by (simp add: idx_def)
    have a: "\<forall>j<length ?t. \<forall>x \<in> set (?t1 ! j). ?f x = j"
      using i k h by (rule push_homed)
    have "homed ?s1 \<longleftrightarrow> (\<forall>j<length ?t. \<forall>x \<in> set (?t1 ! j). ?f x = j)"
      by (simp add: homed_def)
    with a show ?thesis by (rule iffD2 [rotated])
  qed
  moreover have "distinct (map fst (concat (table_f ?s1)))"
  proof -
    have "key \<notin> fst ` set (concat ?t)" using absent key_in_home_iff [OF inv pos] by simp
    then have "distinct (map fst ((key, val) # concat ?t))"
      using invar_distinct [OF inv] by simp
    moreover have "mset (concat ?t1) = mset ((key, val) # concat ?t)" using m by simp
    then have "distinct (map fst (concat ?t1)) = distinct (map fst ((key, val) # concat ?t))"
      by (rule mset_distinct_keys)
    ultimately have "distinct (map fst (concat ?t1))" by (rule iffD2 [rotated])
    then show ?thesis by simp
  qed
  moreover have "0 < mutex_size ?s1" using invar_mutex [OF inv] by simp
  ultimately show ?thesis unfolding invar_def by blast
qed

lemma contents_push:
  assumes inv: "invar s" and pos: "0 < buckets_f s"
    and absent: "key \<notin> fst ` set (table_f s ! idx s key)"
  shows "contents (s\<lparr>table_f := (table_f s)[idx s key := table_f s ! idx s key @ [(key, val)]],
                     size_f := size_f s + 1\<rparr>) = (contents s)(key \<mapsto> val)"
proof -
  let ?t = "table_f s" and ?i = "idx s key"
  let ?t1 = "?t[?i := ?t ! ?i @ [(key, val)]]"
  have m: "mset (concat ?t1) = mset ((key, val) # concat ?t)"
    using mset_push [OF inv pos] by simp
  have "key \<notin> fst ` set (concat ?t)" using absent key_in_home_iff [OF inv pos] by simp
  then have d: "distinct (map fst ((key, val) # concat ?t))"
    using invar_distinct [OF inv] by simp
  then have d1: "distinct (map fst (concat ?t1))"
    using mset_distinct_keys [OF m] by (rule iffD2 [rotated])
  have "set (concat ?t1) = set ((key, val) # concat ?t)" using m by (rule mset_eq_setD)
  then have "map_of (concat ?t1) = map_of ((key, val) # concat ?t)"
    using map_of_inject_set [OF d1 d] by (rule iffD2 [rotated])
  then show ?thesis by (simp add: contents_def)
qed

subsection \<open>Growth keeps the invariant and the contents\<close>

lemma breach_size: "0 < buckets_f s \<Longrightarrow> load_breach (size_f s) (buckets_f s) \<Longrightarrow>
  buckets_f s < size_f s"
  by (simp add: load_breach_iff)

lemma new_bucket_count_pos:
  "0 < mutex_size s \<Longrightarrow> 0 < buckets_f s \<Longrightarrow> load_breach (size_f s) (buckets_f s) \<Longrightarrow>
   buckets_f s < new_bucket_count s"
  using breach_size [of s] new_bucket_count_ge [of s] by simp

lemma Rehash_idle:
  "0 < buckets_f s \<Longrightarrow> \<not> load_breach (size_f s) (buckets_f s) \<Longrightarrow> Rehash s = Inr s"
  by (simp add: Rehash_def)

lemma Rehash_grow:
  "0 < mutex_size s \<Longrightarrow> 0 < buckets_f s \<Longrightarrow> load_breach (size_f s) (buckets_f s) \<Longrightarrow>
   Rehash s =
   Inr (s\<lparr>table_f := move_table (hasher_f s) (new_bucket_count s) (table_f s)
                        (replicate (new_bucket_count s) []),
          buckets_f := new_bucket_count s\<rparr>)"
  by (simp add: Rehash_def Let_def)

lemma regroup_length: "length (move_table h n t (replicate n [])) = n"
  by (simp add: move_table_length)

lemma regroup_mset:
  "0 < n \<Longrightarrow> mset (concat (move_table h n t (replicate n []))) = mset (concat t)"
  by (simp add: move_table_mset)

lemma regroup_homed:
  assumes "0 < n"
  shows "\<forall>j<n. \<forall>el \<in> set (move_table h n t (replicate n []) ! j).
           unat (h (fst el)) mod n = j"
proof -
  let ?temp = "replicate n ([] :: ('a \<times> 'b) list)"
  have l: "length ?temp = n" by simp
  have e: "\<forall>j<length ?temp. \<forall>el \<in> set (?temp ! j). unat (h (fst el)) mod n = j" by simp
  have "\<forall>j<length ?temp. \<forall>el \<in> set (move_table h n t ?temp ! j).
          unat (h (fst el)) mod n = j"
    using assms l e by (rule move_table_homed)
  then show ?thesis by (simp only: length_replicate)
qed

lemma invar_regroup:
  assumes inv: "invar s" and n: "0 < n"
  shows "invar (s\<lparr>table_f := move_table (hasher_f s) n (table_f s) (replicate n []),
                  buckets_f := n\<rparr>)"
    (is "invar ?s1")
proof -
  let ?t1 = "move_table (hasher_f s) n (table_f s) (replicate n [])"
  have m: "mset (concat ?t1) = mset (concat (table_f s))" using n by (rule regroup_mset)
  have "buckets_f ?s1 = length (table_f ?s1)" by (simp add: regroup_length)
  moreover have "size_f ?s1 = sum_list (map length (table_f ?s1))"
  proof -
    have "length (concat ?t1) = length (concat (table_f s))"
      using arg_cong [OF m, of size] by simp
    then show ?thesis using invar_size [OF inv] by (simp add: sum_list_length_concat)
  qed
  moreover have "homed ?s1"
  proof -
    have a: "\<forall>j<n. \<forall>el \<in> set (?t1 ! j). unat (hasher_f s (fst el)) mod n = j"
      using n by (rule regroup_homed)
    have "homed ?s1 \<longleftrightarrow>
          (\<forall>j<n. \<forall>el \<in> set (?t1 ! j). unat (hasher_f s (fst el)) mod n = j)"
      by (simp add: homed_def regroup_length)
    with a show ?thesis by (rule iffD2 [rotated])
  qed
  moreover have "distinct (map fst (concat (table_f ?s1)))"
  proof -
    have "distinct (map fst (concat ?t1))"
      using invar_distinct [OF inv] mset_distinct_keys [OF m] by (rule iffD2 [rotated])
    then show ?thesis by simp
  qed
  moreover have "0 < mutex_size ?s1" using invar_mutex [OF inv] by simp
  ultimately show ?thesis unfolding invar_def by blast
qed

lemma contents_regroup:
  assumes inv: "invar s" and n: "0 < n"
  shows "contents (s\<lparr>table_f := move_table (hasher_f s) n (table_f s) (replicate n []),
                     buckets_f := n\<rparr>) = contents s"
proof -
  let ?t1 = "move_table (hasher_f s) n (table_f s) (replicate n [])"
  have m: "mset (concat ?t1) = mset (concat (table_f s))" using n by (rule regroup_mset)
  have d: "distinct (map fst (concat (table_f s)))" using inv by (rule invar_distinct)
  then have d1: "distinct (map fst (concat ?t1))"
    using mset_distinct_keys [OF m] by (rule iffD2 [rotated])
  have "set (concat ?t1) = set (concat (table_f s))" using m by (rule mset_eq_setD)
  then have "map_of (concat ?t1) = map_of (concat (table_f s))"
    using map_of_inject_set [OF d1 d] by (rule iffD2 [rotated])
  then show ?thesis by (simp add: contents_def)
qed

lemma invar_Rehash:
  assumes "invar s" and "Rehash s = Inr s1"
  shows "invar s1"
proof (cases "0 < buckets_f s \<and> load_breach (size_f s) (buckets_f s)")
  case True
  then have "0 < new_bucket_count s"
    using new_bucket_count_pos [of s] invar_mutex [OF assms(1)] by simp
  then have "invar (s\<lparr>table_f := move_table (hasher_f s) (new_bucket_count s) (table_f s)
                                  (replicate (new_bucket_count s) []),
                       buckets_f := new_bucket_count s\<rparr>)"
    using assms(1) by (intro invar_regroup)
  moreover have "Rehash s = Inr (s\<lparr>table_f := move_table (hasher_f s) (new_bucket_count s)
       (table_f s) (replicate (new_bucket_count s) []), buckets_f := new_bucket_count s\<rparr>)"
    using True invar_mutex [OF assms(1)] by (intro Rehash_grow) simp_all
  ultimately show ?thesis using assms(2) by simp
next
  case False
  with assms(2) have "s1 = s" by (auto simp: Rehash_def split: if_splits)
  with assms(1) show ?thesis by simp
qed

subsection \<open>Insert\<close>

lemma present_iff:
  assumes "invar s" and "0 < buckets_f s"
  shows "chain_has key (table_f s ! idx s key) \<longleftrightarrow> contents s key \<noteq> None"
  using key_in_home_iff [OF assms, of key]
  by (simp only: chain_has_iff contents_None_iff not_not)

lemma Insert_present:
  assumes "invar s" and "0 < buckets_f s" and "contents s key \<noteq> None"
  shows "Insert key val s = Inr (False, s)"
proof -
  have "chain_has key (table_f s ! idx s key)"
    using assms(3) present_iff [OF assms(1,2)] by simp
  then show ?thesis by (simp add: Insert_def locate_ok [OF assms(1,2)])
qed

lemma Rehash_total:
  assumes "invar s" and "0 < buckets_f s"
  shows "\<exists>s1. Rehash s = Inr s1 \<and> invar s1 \<and> contents s1 = contents s \<and>
           size_f s1 = size_f s \<and> mutex_size s1 = mutex_size s \<and>
           hasher_f s1 = hasher_f s \<and> buckets_f s \<le> buckets_f s1 \<and> 0 < buckets_f s1"
proof (cases "load_breach (size_f s) (buckets_f s)")
  case True
  let ?n = "new_bucket_count s"
  let ?s1 = "s\<lparr>table_f := move_table (hasher_f s) ?n (table_f s) (replicate ?n []),
               buckets_f := ?n\<rparr>"
  have m: "0 < mutex_size s" using assms(1) by (rule invar_mutex)
  have lt: "buckets_f s < ?n" using m assms(2) True by (rule new_bucket_count_pos)
  then have n: "0 < ?n" by simp
  have "Rehash s = Inr ?s1" using m assms(2) True by (rule Rehash_grow)
  moreover have "invar ?s1" using assms(1) n by (rule invar_regroup)
  moreover have "contents ?s1 = contents s" using assms(1) n by (rule contents_regroup)
  moreover have "size_f ?s1 = size_f s" "mutex_size ?s1 = mutex_size s"
    "hasher_f ?s1 = hasher_f s" "buckets_f s \<le> buckets_f ?s1" "0 < buckets_f ?s1"
    using lt by simp_all
  ultimately show ?thesis by blast
next
  case False
  with assms(2) have "Rehash s = Inr s" by (simp add: Rehash_idle)
  with assms show ?thesis by simp
qed

lemma Insert_absent:
  assumes inv: "invar s" and pos: "0 < buckets_f s" and absent: "contents s key = None"
  shows "\<exists>s2. Insert key val s = Inr (True, s2) \<and> invar s2 \<and>
           contents s2 = (contents s)(key \<mapsto> val) \<and> size_f s2 = size_f s + 1 \<and>
           mutex_size s2 = mutex_size s \<and> hasher_f s2 = hasher_f s \<and>
           buckets_f s \<le> buckets_f s2 \<and> 0 < buckets_f s2"
proof -
  let ?i = "idx s key"
  let ?s1 = "s\<lparr>table_f := (table_f s)[?i := table_f s ! ?i @ [(key, val)]],
               size_f := size_f s + 1\<rparr>"
  have nh: "\<not> chain_has key (table_f s ! ?i)"
    using absent present_iff [OF inv pos] by simp
  then have a: "key \<notin> fst ` set (table_f s ! ?i)" by (simp add: chain_has_iff)
  have inv1: "invar ?s1" using inv pos a by (rule invar_push)
  have c1: "contents ?s1 = (contents s)(key \<mapsto> val)" using inv pos a by (rule contents_push)
  have pos1: "0 < buckets_f ?s1" using pos by simp
  have ins: "Insert key val s =
      (if load_breach (size_f ?s1) (buckets_f ?s1)
       then (case Rehash ?s1 of Inl e \<Rightarrow> Inl e | Inr s2 \<Rightarrow> Inr (True, s2))
       else Inr (True, ?s1))"
    using nh by (simp add: Insert_def locate_ok [OF inv pos] Let_def)
  show ?thesis
  proof (cases "load_breach (size_f ?s1) (buckets_f ?s1)")
    case True
    from Rehash_total [OF inv1 pos1] obtain s2 where
      r: "Rehash ?s1 = Inr s2" and i2: "invar s2" and c2: "contents s2 = contents ?s1"
      and z2: "size_f s2 = size_f ?s1" and m2: "mutex_size s2 = mutex_size ?s1"
      and h2: "hasher_f s2 = hasher_f ?s1" and b2: "buckets_f ?s1 \<le> buckets_f s2"
      and p2: "0 < buckets_f s2"
      by blast
    have "Insert key val s = Inr (True, s2)" using ins True r by simp
    moreover have "contents s2 = (contents s)(key \<mapsto> val)" using c2 c1 by simp
    moreover have "size_f s2 = size_f s + 1" using z2 by simp
    moreover have "mutex_size s2 = mutex_size s" using m2 by simp
    moreover have "hasher_f s2 = hasher_f s" using h2 by simp
    moreover have "buckets_f s \<le> buckets_f s2" using b2 by simp
    ultimately show ?thesis using i2 p2 by blast
  next
    case False
    then have "Insert key val s = Inr (True, ?s1)" using ins by simp
    moreover have "size_f ?s1 = size_f s + 1" "mutex_size ?s1 = mutex_size s"
      "hasher_f ?s1 = hasher_f s" "buckets_f s \<le> buckets_f ?s1"
      by simp_all
    ultimately show ?thesis using inv1 c1 pos1 by blast
  qed
qed

subsection \<open>Erase\<close>

lemma homed_shrink:
  assumes "i < length t" and "set c \<subseteq> set (t ! i)"
    and "\<forall>j<length t. \<forall>x \<in> set (t ! j). f x = j"
  shows "\<forall>j<length t. \<forall>x \<in> set (t[i := c] ! j). f x = j"
proof (intro allI impI ballI)
  fix j x
  assume j: "j < length t" and x: "x \<in> set (t[i := c] ! j)"
  show "f x = j"
  proof (cases "j = i")
    case True
    with x assms(1) have "x \<in> set c" by simp
    with assms(2) have "x \<in> set (t ! i)" by blast
    with True j assms(3) show ?thesis by blast
  next
    case False
    with x have "x \<in> set (t ! j)" by simp
    with j assms(3) show ?thesis by blast
  qed
qed

lemma distinct_three:
  "distinct (xs @ ys @ zs) \<Longrightarrow> set xs \<inter> set ys = {} \<and> set ys \<inter> set zs = {}"
  by auto

lemma concat_filter_home:
  assumes inv: "invar s" and pos: "0 < buckets_f s"
  shows "concat ((table_f s)[idx s key := filter (\<lambda>el. fst el \<noteq> key) (table_f s ! idx s key)]) =
         filter (\<lambda>el. fst el \<noteq> key) (concat (table_f s))"
proof -
  let ?t = "table_f s" and ?i = "idx s key" and ?P = "\<lambda>el. fst el \<noteq> key"
  let ?A = "concat (take ?i ?t)" and ?B = "?t ! ?i" and ?C = "concat (drop (Suc ?i) ?t)"
  have i: "?i < length ?t" using inv pos by (rule idx_in_table)
  have split: "concat ?t = ?A @ ?B @ ?C" using i by (rule concat_split)
  have "distinct (map fst (concat ?t))" using inv by (rule invar_distinct)
  then have d: "distinct (map fst ?A @ map fst ?B @ map fst ?C)" by (subst (asm) split) simp
  have AB: "set (map fst ?A) \<inter> set (map fst ?B) = {}"
    using distinct_three [OF d] by (rule conjunct1)
  have BC: "set (map fst ?B) \<inter> set (map fst ?C) = {}"
    using distinct_three [OF d] by (rule conjunct2)
  have home: "el \<in> set ?B" if "el \<in> set (concat ?t)" and "key = fst el" for el
    using stored_in_home [OF inv that(1)] that(2) by simp
  have "key \<notin> fst ` set ?A"
  proof
    assume "key \<in> fst ` set ?A"
    then obtain el where el: "el \<in> set ?A" and k: "key = fst el" by (rule imageE)
    have "el \<in> set (concat ?t)" using el by (subst split) simp
    then have "el \<in> set ?B" using k by (rule home)
    then have "fst el \<in> set (map fst ?A) \<inter> set (map fst ?B)" using el by simp
    with AB show False by blast
  qed
  then have A: "filter ?P ?A = ?A" by (rule filter_absent_key)
  have "key \<notin> fst ` set ?C"
  proof
    assume "key \<in> fst ` set ?C"
    then obtain el where el: "el \<in> set ?C" and k: "key = fst el" by (rule imageE)
    have "el \<in> set (concat ?t)" using el by (subst split) simp
    then have "el \<in> set ?B" using k by (rule home)
    then have "fst el \<in> set (map fst ?B) \<inter> set (map fst ?C)" using el by simp
    with BC show False by blast
  qed
  then have C: "filter ?P ?C = ?C" by (rule filter_absent_key)
  have "filter ?P (concat ?t) = filter ?P ?A @ filter ?P ?B @ filter ?P ?C"
    by (subst split) simp
  then show ?thesis using A C by (simp add: concat_update [OF i])
qed

lemma keyed_nonempty: "k \<in> f ` set xs \<Longrightarrow> xs \<noteq> []"
  by auto

lemma Erase_absent:
  assumes inv: "invar s" and pos: "0 < buckets_f s" and absent: "contents s key = None"
  shows "Erase key s = Inr (False, s)"
proof -
  have "\<not> chain_has key (table_f s ! idx s key)"
    using absent present_iff [OF inv pos] by simp
  then have "key \<notin> fst ` set (table_f s ! idx s key)" by (simp add: chain_has_iff)
  then have "chain_index key (table_f s ! idx s key) 0 = length (table_f s ! idx s key)"
    by (simp add: chain_index_end_iff)
  then show ?thesis by (simp add: Erase_def locate_ok [OF inv pos])
qed

lemma Erase_present:
  assumes inv: "invar s" and pos: "0 < buckets_f s" and present: "contents s key \<noteq> None"
  shows "Erase key s =
    Inr (True, s\<lparr>table_f := (table_f s)[idx s key :=
                      filter (\<lambda>el. fst el \<noteq> key) (table_f s ! idx s key)],
                  size_f := size_f s - 1\<rparr>)"
proof -
  let ?B = "table_f s ! idx s key"
  have "chain_has key ?B" using present present_iff [OF inv pos] by simp
  then have k: "key \<in> fst ` set ?B" by (simp add: chain_has_iff)
  then have ne: "chain_index key ?B 0 \<noteq> length ?B" by (simp add: chain_index_end_iff)
  have "key \<in> fst ` set (concat (table_f s))" using k key_in_home_iff [OF inv pos] by simp
  then have "concat (table_f s) \<noteq> []" by (rule keyed_nonempty)
  then have "size_f s \<noteq> 0"
    using invar_size [OF inv] by (simp add: sum_list_length_concat)
  moreover have "take (chain_index key ?B 0) ?B @ drop (Suc (chain_index key ?B 0)) ?B =
        filter (\<lambda>el. fst el \<noteq> key) ?B"
    using distinct_home [OF inv pos] by (rule erase_chain_filter)
  ultimately show ?thesis using ne by (simp add: Erase_def locate_ok [OF inv pos] Let_def)
qed

lemma invar_erase:
  assumes inv: "invar s" and pos: "0 < buckets_f s" and present: "contents s key \<noteq> None"
  shows "invar (s\<lparr>table_f := (table_f s)[idx s key :=
                      filter (\<lambda>el. fst el \<noteq> key) (table_f s ! idx s key)],
                  size_f := size_f s - 1\<rparr>)"
    (is "invar ?s1")
proof -
  let ?t = "table_f s" and ?i = "idx s key" and ?P = "\<lambda>el. fst el \<noteq> key"
  let ?t1 = "?t[?i := filter ?P (?t ! ?i)]"
  let ?f = "\<lambda>x. unat (hasher_f s (fst x)) mod buckets_f s"
  have i: "?i < length ?t" using inv pos by (rule idx_in_table)
  have c: "concat ?t1 = filter ?P (concat ?t)" using inv pos by (rule concat_filter_home)
  have d: "distinct (map fst (concat ?t))" using inv by (rule invar_distinct)
  have k: "key \<in> fst ` set (concat ?t)" using present by (simp add: contents_None_iff)
  have "buckets_f ?s1 = length (table_f ?s1)" using invar_buckets [OF inv] by simp
  moreover have "size_f ?s1 = sum_list (map length (table_f ?s1))"
  proof -
    have "Suc (length (filter ?P (concat ?t))) = length (concat ?t)"
      using d k by (rule length_filter_one)
    then show ?thesis using invar_size [OF inv] c by (simp add: sum_list_length_concat)
  qed
  moreover have "homed ?s1"
  proof -
    have h: "\<forall>j<length ?t. \<forall>x \<in> set (?t ! j). ?f x = j"
      using invar_homed [OF inv] by (simp only: homed_table)
    have sub: "set (filter ?P (?t ! ?i)) \<subseteq> set (?t ! ?i)" by simp
    have a: "\<forall>j<length ?t. \<forall>x \<in> set (?t1 ! j). ?f x = j"
      using i sub h by (rule homed_shrink)
    have "homed ?s1 \<longleftrightarrow> (\<forall>j<length ?t. \<forall>x \<in> set (?t1 ! j). ?f x = j)"
      by (simp add: homed_def)
    with a show ?thesis by (rule iffD2 [rotated])
  qed
  moreover have "distinct (map fst (concat (table_f ?s1)))"
    using d c by (simp add: distinct_map_filter)
  moreover have "0 < mutex_size ?s1" using invar_mutex [OF inv] by simp
  ultimately show ?thesis unfolding invar_def by blast
qed

lemma contents_erase:
  assumes inv: "invar s" and pos: "0 < buckets_f s"
  shows "contents (s\<lparr>table_f := (table_f s)[idx s key :=
                      filter (\<lambda>el. fst el \<noteq> key) (table_f s ! idx s key)],
                  size_f := size_f s - 1\<rparr>) = (contents s)(key := None)"
  using concat_filter_home [OF inv pos, of key]
  by (simp add: contents_def map_of_filter_other)

lemma size_erase:
  assumes inv: "invar s" and present: "contents s key \<noteq> None"
  shows "Suc (size_f s - 1) = size_f s"
proof -
  have "key \<in> fst ` set (concat (table_f s))" using present by (simp add: contents_None_iff)
  then have "concat (table_f s) \<noteq> []" by (rule keyed_nonempty)
  then show ?thesis using invar_size [OF inv] by (simp add: sum_list_length_concat)
qed

subsection \<open>Clear\<close>

lemma concat_cleared: "concat (map (\<lambda>vec. []) t) = []"
  by (induction t) simp_all

lemma invar_Clear: "invar s \<Longrightarrow> invar (Clear s)"
  unfolding invar_def homed_def Clear_def
  by (simp add: concat_cleared sum_list_length_concat)

lemma contents_Clear: "contents (Clear s) = Map.empty"
  by (simp add: contents_def Clear_def concat_cleared)

subsection \<open>Construction\<close>

lemma threads_cnt_ge: "8 \<le> to_size_t (max 8 (sint (w :: 32 word)))"
proof -
  have "sint w < 2 ^ 31" using sint_lt [of w] by simp
  then have "max 8 (sint w) < 2 ^ 64" by simp
  moreover have "0 \<le> max 8 (sint w)" by simp
  ultimately have "max 8 (sint w) mod 2 ^ 64 = max 8 (sint w)" by (rule mod_pos_pos_trivial [rotated])
  then show ?thesis by (simp add: to_size_t_def)
qed

lemma invar_fresh:
  "0 < m \<Longrightarrow>
   invar \<lparr>table_f = replicate n [], mutex_size = m, size_f = 0, buckets_f = n, hasher_f = h\<rparr>"
  unfolding invar_def homed_def by simp

lemma table_resize_fits: "n < 2 ^ 32 \<Longrightarrow> table_resize n = Inr (replicate n [])"
proof -
  assume "n < 2 ^ 32"
  moreover have "(2 :: nat) ^ 32 \<le> table_max_size" by (simp add: table_max_size_def)
  ultimately have "\<not> table_max_size < n" by simp
  then show ?thesis by (simp add: table_resize_def)
qed

lemma table_resize_Inr: "table_resize n = Inr t \<Longrightarrow> t = replicate n []"
  by (simp add: table_resize_def split: if_splits)

lemma ctor_shape:
  assumes "ConcurrentHashMap es et h = Inr s"
  shows "\<exists>n. s = \<lparr>table_f = replicate n [], mutex_size = to_size_t (max 8 (sint et)),
                   size_f = 0, buckets_f = n, hasher_f = h\<rparr>"
proof (cases "sint es = kUndefinedSize")
  case True
  let ?t = "to_size_t (max 8 (sint et))"
  from assms True obtain t where r: "table_resize ?t = Inr t"
    and s: "s = \<lparr>table_f = t, mutex_size = ?t, size_f = 0, buckets_f = length t, hasher_f = h\<rparr>"
    by (cases "table_resize ?t :: error + ('a, 'b) chain list")
      (simp_all add: ConcurrentHashMap_def Let_def)
  from table_resize_Inr [OF r] s show ?thesis by simp
next
  case False
  let ?t = "to_size_t (max 8 (sint et))"
  let ?e = "to_size_t (int_div (sint es + int kLoadFactor - 1) (int kLoadFactor))"
  let ?size = "if ?e mod ?t = 0 then ?e else (?e + ?t - ?e mod ?t) mod 2 ^ 64"
  from assms False have no: "\<not> INT_MAX < sint es + int kLoadFactor"
    by (cases "INT_MAX < sint es + int kLoadFactor") (simp_all add: ConcurrentHashMap_def Let_def)
  from assms False no obtain t where r: "table_resize ?size = Inr t"
    and s: "s = \<lparr>table_f = t, mutex_size = ?t, size_f = 0, buckets_f = length t, hasher_f = h\<rparr>"
    by (cases "table_resize ?size :: error + ('a, 'b) chain list")
      (simp_all add: ConcurrentHashMap_def Let_def)
  from table_resize_Inr [OF r] s show ?thesis by simp
qed

lemma ctor_invar:
  assumes "ConcurrentHashMap es et h = Inr s"
  shows "invar s \<and> size_f s = 0 \<and> hasher_f s = h \<and> 8 \<le> mutex_size s"
proof -
  let ?m = "to_size_t (max 8 (sint et))"
  have m: "8 \<le> ?m" by (rule threads_cnt_ge)
  then have "0 < ?m" by simp
  from ctor_shape [OF assms] obtain n where "s = \<lparr>table_f = replicate n [], mutex_size = ?m,
      size_f = 0, buckets_f = n, hasher_f = h\<rparr>"
    by blast
  with invar_fresh [OF \<open>0 < ?m\<close>, of n h] m show ?thesis by simp
qed

subsection \<open>Insert of a key that is not stored, as an equation\<close>

lemma Insert_absent_eq:
  assumes inv: "invar s" and pos: "0 < buckets_f s" and absent: "contents s key = None"
  shows "Insert key val s =
      (if load_breach (size_f s + 1) (buckets_f s)
       then (case Rehash (s\<lparr>table_f := (table_f s)[idx s key := table_f s ! idx s key @ [(key, val)]],
                              size_f := size_f s + 1\<rparr>)
             of Inl e \<Rightarrow> Inl e | Inr s2 \<Rightarrow> Inr (True, s2))
       else Inr (True, s\<lparr>table_f := (table_f s)[idx s key := table_f s ! idx s key @ [(key, val)]],
                          size_f := size_f s + 1\<rparr>))"
proof -
  have "\<not> chain_has key (table_f s ! idx s key)"
    using absent present_iff [OF inv pos] by simp
  then show ?thesis by (simp add: Insert_def locate_ok [OF inv pos] Let_def)
qed

subsection \<open>Sequences of calls keep the invariant\<close>

lemma locate_pos: "locate s key = Inr i \<Longrightarrow> 0 < buckets_f s \<and> 0 < mutex_size s \<and> i = idx s key \<and> i < length (table_f s)"
  by (simp add: locate_def split: if_splits)

lemma Insert_pos: "Insert key val s = Inr r \<Longrightarrow> 0 < buckets_f s"
  by (cases "locate s key") (auto simp: Insert_def dest: locate_pos)

lemma Erase_pos: "Erase key s = Inr r \<Longrightarrow> 0 < buckets_f s"
  by (cases "locate s key") (auto simp: Erase_def dest: locate_pos)

lemma Insert_keeps:
  assumes inv: "invar s" and ins: "Insert key val s = Inr (r, s1)"
  shows "invar s1 \<and> mutex_size s1 = mutex_size s \<and> hasher_f s1 = hasher_f s \<and>
         buckets_f s \<le> buckets_f s1"
proof -
  have pos: "0 < buckets_f s" using ins by (rule Insert_pos)
  show ?thesis
  proof (cases "contents s key")
    case None
    from Insert_absent [OF inv pos None, of val] ins show ?thesis by auto
  next
    case (Some v)
    then have "contents s key \<noteq> None" by simp
    from Insert_present [OF inv pos this, of val] ins inv show ?thesis by simp
  qed
qed

lemma Erase_keeps:
  assumes inv: "invar s" and era: "Erase key s = Inr (r, s1)"
  shows "invar s1 \<and> mutex_size s1 = mutex_size s \<and> hasher_f s1 = hasher_f s \<and>
         buckets_f s1 = buckets_f s"
proof -
  have pos: "0 < buckets_f s" using era by (rule Erase_pos)
  show ?thesis
  proof (cases "contents s key")
    case None
    from Erase_absent [OF inv pos None] era inv show ?thesis by simp
  next
    case (Some v)
    then have p: "contents s key \<noteq> None" by simp
    have "invar (s\<lparr>table_f := (table_f s)[idx s key :=
                      filter (\<lambda>el. fst el \<noteq> key) (table_f s ! idx s key)],
                  size_f := size_f s - 1\<rparr>)"
      using inv pos p by (rule invar_erase)
    with Erase_present [OF inv pos p] era show ?thesis by auto
  qed
qed

lemma Clear_keeps:
  "invar s \<Longrightarrow> invar (Clear s) \<and> mutex_size (Clear s) = mutex_size s \<and>
     hasher_f (Clear s) = hasher_f s \<and> buckets_f (Clear s) = buckets_f s"
  by (simp add: invar_Clear) (simp add: Clear_def)

lemma call_state_Insert:
  "call_state (Call_Insert key val) s = Inr s1 \<Longrightarrow> \<exists>r. Insert key val s = Inr (r, s1)"
proof (cases "Insert key val s")
  case (Inl e)
  moreover assume "call_state (Call_Insert key val) s = Inr s1"
  ultimately show ?thesis by simp
next
  case (Inr p)
  moreover assume "call_state (Call_Insert key val) s = Inr s1"
  ultimately have "snd p = s1" by simp
  then have "p = (fst p, s1)" by (cases p) simp
  with Inr show ?thesis by metis
qed

lemma call_state_Erase:
  "call_state (Call_Erase key) s = Inr s1 \<Longrightarrow> \<exists>r. Erase key s = Inr (r, s1)"
proof (cases "Erase key s")
  case (Inl e)
  moreover assume "call_state (Call_Erase key) s = Inr s1"
  ultimately show ?thesis by simp
next
  case (Inr p)
  moreover assume "call_state (Call_Erase key) s = Inr s1"
  ultimately have "snd p = s1" by simp
  then have "p = (fst p, s1)" by (cases p) simp
  with Inr show ?thesis by metis
qed

lemma call_state_keeps:
  assumes "invar s" and "call_state c s = Inr s1"
  shows "invar s1 \<and> mutex_size s1 = mutex_size s \<and> hasher_f s1 = hasher_f s \<and>
         buckets_f s \<le> buckets_f s1"
proof (cases c)
  case (Call_Insert key val)
  with assms(2) have "call_state (Call_Insert key val) s = Inr s1" by simp
  then have "\<exists>r. Insert key val s = Inr (r, s1)" by (rule call_state_Insert)
  then obtain r where "Insert key val s = Inr (r, s1)" ..
  with assms(1) show ?thesis by (rule Insert_keeps)
next
  case (Call_Erase key)
  with assms(2) have "call_state (Call_Erase key) s = Inr s1" by simp
  then have "\<exists>r. Erase key s = Inr (r, s1)" by (rule call_state_Erase)
  then obtain r where "Erase key s = Inr (r, s1)" ..
  from Erase_keeps [OF assms(1) this] show ?thesis by simp
next
  case Call_Clear
  with assms(2) have "s1 = Clear s" by simp
  with Clear_keeps [OF assms(1)] show ?thesis by simp
qed

lemma run_step:
  "run (c # cs) s = Inr s1 \<Longrightarrow> \<exists>s2. call_state c s = Inr s2 \<and> run cs s2 = Inr s1"
  by (cases "call_state c s") simp_all

lemma run_keeps:
  "invar s \<Longrightarrow> run cs s = Inr s1 \<Longrightarrow>
   invar s1 \<and> mutex_size s1 = mutex_size s \<and> hasher_f s1 = hasher_f s \<and>
   buckets_f s \<le> buckets_f s1"
proof (induction cs arbitrary: s)
  case Nil
  then show ?case by simp
next
  case (Cons c cs)
  from run_step [OF Cons.prems(2)] obtain s2
    where c: "call_state c s = Inr s2" and r: "run cs s2 = Inr s1"
    by blast
  have k: "invar s2 \<and> mutex_size s2 = mutex_size s \<and> hasher_f s2 = hasher_f s \<and>
         buckets_f s \<le> buckets_f s2"
    using Cons.prems(1) c by (rule call_state_keeps)
  then have "invar s2" by simp
  from Cons.IH [OF this r] k show ?case by simp
qed

lemma reachable_invar:
  assumes "ConcurrentHashMap es et h = Inr s0" and "run cs s0 = Inr s"
  shows "invar s"
proof -
  have "invar s0" using ctor_invar [OF assms(1)] by simp
  from run_keeps [OF this assms(2)] show ?thesis by simp
qed

subsection \<open>The sample maps satisfy the invariant\<close>

lemma invar_sample: "invar sample_map"
proof -
  have "homed sample_map"
    unfolding homed_def sample_map_def key_hash_def
    by (simp add: less_Suc_eq all_conj_distrib)
  then show ?thesis unfolding invar_def by (simp add: sample_map_def)
qed

lemma invar_crowded: "invar crowded_map"
proof -
  have "homed crowded_map"
    unfolding homed_def crowded_map_def key_hash_def
    by (simp add: less_Suc_eq all_conj_distrib)
  then show ?thesis unfolding invar_def by (simp add: crowded_map_def)
qed

lemma default_map:
  "(ConcurrentHashMap (- 1) 8 h :: error + ('k, 'v) concurrent_hash_map) =
   Inr \<lparr>table_f = [[], [], [], [], [], [], [], []], mutex_size = 8, size_f = 0,
         buckets_f = 8, hasher_f = h\<rparr>"
proof -
  have t: "to_size_t (max 8 (sint (8 :: 32 word))) = 8" by (simp add: to_size_t_def)
  have eight: "replicate 8 ([] :: ('k \<times> 'v) list) = [[], [], [], [], [], [], [], []]"
    by (simp add: numeral_eq_Suc)
  have "(table_resize 8 :: error + ('k, 'v) chain list) = Inr (replicate 8 [])"
    by (rule table_resize_fits) simp
  then have r: "(table_resize 8 :: error + ('k, 'v) chain list) =
      Inr [[], [], [], [], [], [], [], []]"
    by (simp only: eight)
  have u: "sint (- 1 :: 32 word) = kUndefinedSize" by (simp add: kUndefinedSize_def)
  show ?thesis
    unfolding ConcurrentHashMap_def Let_def t
    by (simp only: u if_True r) simp
qed

lemma zero_size_map:
  "(ConcurrentHashMap 0 8 h :: error + ('k, 'v) concurrent_hash_map) =
   Inr \<lparr>table_f = [], mutex_size = 8, size_f = 0, buckets_f = 0, hasher_f = h\<rparr>"
proof -
  have t: "to_size_t (max 8 (sint (8 :: 32 word))) = 8" by (simp add: to_size_t_def)
  have e: "to_size_t (int_div (sint (0 :: 32 word) + int kLoadFactor - 1) (int kLoadFactor)) = 0"
    by (simp add: to_size_t_def int_div_def kLoadFactor_def)
  have "(table_resize 0 :: error + ('k, 'v) chain list) = Inr (replicate 0 [])"
    by (rule table_resize_fits) simp
  then have r: "(table_resize 0 :: error + ('k, 'v) chain list) = Inr []" by simp
  have u: "sint (0 :: 32 word) \<noteq> kUndefinedSize" by (simp add: kUndefinedSize_def)
  have o: "\<not> INT_MAX < sint (0 :: 32 word) + int kLoadFactor"
    by (simp add: INT_MAX_def kLoadFactor_def)
  show ?thesis
    unfolding ConcurrentHashMap_def Let_def t e
    by (simp only: u o if_False) (simp add: r)
qed

subsection \<open>When the lock index names the partition of the bucket\<close>

lemma aligned_lock:
  "mutex_size s dvd buckets_f s \<Longrightarrow> idx s key mod mutex_size s = m_idx s key"
  by (simp add: idx_def m_idx_def mod_mod_cancel)

lemma round_up_small:
  assumes "0 < (e :: nat)" and "e < 2 ^ 31" and "8 \<le> t" and "t < 2 ^ 31"
  shows "(e + t - e mod t) mod 2 ^ 64 = t * Suc (e div t)"
proof -
  have "e mod t \<le> e" by (rule mod_less_eq_dividend)
  then have "e + t - e mod t \<le> e + t" by simp
  also have "\<dots> < 2 ^ 31 + 2 ^ 31" using assms(2,4) by (rule add_strict_mono)
  also have "\<dots> \<le> (2 ^ 64 :: nat)" by simp
  finally have "(e + t - e mod t) mod 2 ^ 64 = e + t - e mod t" by simp
  then show ?thesis by (simp only: round_up_eq)
qed

lemma threads_cnt_small: "to_size_t (max 8 (sint (w :: 32 word))) < 2 ^ 31"
proof -
  have s: "sint w < 2 ^ 31" using sint_lt [of w] by simp
  then have "max 8 (sint w) < 2 ^ 64" by simp
  moreover have "0 \<le> max 8 (sint w)" by simp
  ultimately have "max 8 (sint w) mod 2 ^ 64 = max 8 (sint w)"
    by (rule mod_pos_pos_trivial [rotated])
  then have "to_size_t (max 8 (sint w)) = nat (max 8 (sint w))" by (simp add: to_size_t_def)
  moreover have "nat (max 8 (sint w)) < 2 ^ 31" using s by simp
  ultimately show ?thesis by simp
qed

lemma expected_size2_small:
  assumes "0 < i" and "i + 3 \<le> 2 ^ 31 - 1"
  shows "0 < to_size_t (int_div (i + int kLoadFactor - 1) (int kLoadFactor)) \<and>
         to_size_t (int_div (i + int kLoadFactor - 1) (int kLoadFactor)) < 2 ^ 31"
proof -
  let ?q = "(i + 2) div 3"
  have d: "int_div (i + int kLoadFactor - 1) (int kLoadFactor) = ?q"
    using assms(1) by (simp add: int_div_def kLoadFactor_def)
  have q0: "0 < ?q" using assms(1) by simp
  have q1: "?q < 2 ^ 31" using assms(2) by simp
  then have "?q < 2 ^ 64" by simp
  with q0 have "?q mod 2 ^ 64 = ?q" by simp
  then have "to_size_t ?q = nat ?q" by (simp add: to_size_t_def)
  moreover have "0 < nat ?q" using q0 by simp
  moreover have "nat ?q < 2 ^ 31" using q1 by simp
  ultimately show ?thesis using d by simp
qed

lemma ctor_aligned:
  assumes c: "ConcurrentHashMap es et h = Inr s"
    and ok: "sint es = - 1 \<or> 0 < sint es"
  shows "0 < buckets_f s \<and> mutex_size s dvd buckets_f s"
proof -
  let ?t = "to_size_t (max 8 (sint et))"
  let ?e = "to_size_t (int_div (sint es + int kLoadFactor - 1) (int kLoadFactor))"
  have t8: "8 \<le> ?t" by (rule threads_cnt_ge)
  have t31: "?t < 2 ^ 31" by (rule threads_cnt_small)
  show ?thesis
  proof (cases "sint es = - 1")
    case True
    have "?t < 2 ^ 32" using t31 by simp
    then have "(table_resize ?t :: error + ('a, 'b) chain list) = Inr (replicate ?t [])"
      by (rule table_resize_fits)
    with c True have "s = \<lparr>table_f = replicate ?t [], mutex_size = ?t, size_f = 0,
            buckets_f = ?t, hasher_f = h\<rparr>"
      by (simp add: ConcurrentHashMap_def kUndefinedSize_def Let_def)
    with t8 show ?thesis by simp
  next
    case False
    with ok have pos: "0 < sint es" by simp
    from c False have no: "\<not> INT_MAX < sint es + int kLoadFactor"
      by (cases "INT_MAX < sint es + int kLoadFactor")
        (simp_all add: ConcurrentHashMap_def kUndefinedSize_def Let_def)
    then have "sint es + 3 \<le> 2 ^ 31 - 1" by (simp add: INT_MAX_def kLoadFactor_def)
    with pos have e: "0 < ?e \<and> ?e < 2 ^ 31" by (rule expected_size2_small)
    let ?size = "if ?e mod ?t = 0 then ?e else (?e + ?t - ?e mod ?t) mod 2 ^ 64"
    have up: "(?e + ?t - ?e mod ?t) mod 2 ^ 64 = ?t * Suc (?e div ?t)"
      using e t8 t31 by (intro round_up_small) simp_all
    have shape: "0 < ?size \<and> ?t dvd ?size \<and> ?size < 2 ^ 32"
    proof (cases "?e mod ?t = 0")
      case True
      with e show ?thesis by (simp add: dvd_eq_mod_eq_0)
    next
      case False
      have "?e + ?t - ?e mod ?t \<le> ?e + ?t" by simp
      also have "\<dots> < 2 ^ 31 + 2 ^ 31" using e t31 by (intro add_strict_mono) simp_all
      finally have "?e + ?t - ?e mod ?t < 2 ^ 32" by simp
      moreover have "(?e + ?t - ?e mod ?t) mod 2 ^ 64 \<le> ?e + ?t - ?e mod ?t"
        by (rule mod_less_eq_dividend)
      ultimately have "(?e + ?t - ?e mod ?t) mod 2 ^ 64 < 2 ^ 32" by simp
      with False t8 up show ?thesis by simp
    qed
    then have "?size < 2 ^ 32" by simp
    then have "(table_resize ?size :: error + ('a, 'b) chain list) = Inr (replicate ?size [])"
      by (rule table_resize_fits)
    with c False no have s: "s = \<lparr>table_f = replicate ?size [], mutex_size = ?t, size_f = 0,
            buckets_f = ?size, hasher_f = h\<rparr>"
      by (simp add: ConcurrentHashMap_def kUndefinedSize_def Let_def)
    with shape show ?thesis by simp
  qed
qed

lemma Insert_aligned:
  assumes inv: "invar s" and al: "mutex_size s dvd buckets_f s"
    and ins: "Insert key val s = Inr (r, s1)"
  shows "0 < buckets_f s1 \<and> mutex_size s1 dvd buckets_f s1"
proof -
  have pos: "0 < buckets_f s" using ins by (rule Insert_pos)
  show ?thesis
  proof (cases "contents s key")
    case (Some v)
    then have "contents s key \<noteq> None" by simp
    from Insert_present [OF inv pos this, of val] ins pos al show ?thesis by simp
  next
    case None
    let ?s1 = "s\<lparr>table_f := (table_f s)[idx s key := table_f s ! idx s key @ [(key, val)]],
                 size_f := size_f s + 1\<rparr>"
    note eq = Insert_absent_eq [OF inv pos None, of val]
    show ?thesis
    proof (cases "load_breach (size_f s + 1) (buckets_f s)")
      case False
      with eq ins have "s1 = ?s1" by simp
      with pos al show ?thesis by simp
    next
      case True
      have m: "0 < mutex_size ?s1" using invar_mutex [OF inv] by simp
      have b: "0 < buckets_f ?s1" using pos by simp
      have l: "load_breach (size_f ?s1) (buckets_f ?s1)" using True by simp
      have "Rehash ?s1 = Inr (?s1\<lparr>table_f := move_table (hasher_f ?s1) (new_bucket_count ?s1)
               (table_f ?s1) (replicate (new_bucket_count ?s1) []),
             buckets_f := new_bucket_count ?s1\<rparr>)"
        using m b l by (rule Rehash_grow)
      with eq ins True have "buckets_f s1 = new_bucket_count ?s1 \<and> mutex_size s1 = mutex_size ?s1"
        by auto
      moreover have "buckets_f ?s1 < new_bucket_count ?s1" using m b l by (rule new_bucket_count_pos)
      moreover have "mutex_size ?s1 dvd new_bucket_count ?s1" by (rule new_bucket_count_dvd)
      ultimately show ?thesis by simp
    qed
  qed
qed

lemma call_state_aligned:
  assumes "invar s" and "0 < buckets_f s \<and> mutex_size s dvd buckets_f s"
    and "call_state c s = Inr s1"
  shows "0 < buckets_f s1 \<and> mutex_size s1 dvd buckets_f s1"
proof (cases c)
  case (Call_Insert key val)
  with assms(3) have "call_state (Call_Insert key val) s = Inr s1" by simp
  then have "\<exists>r. Insert key val s = Inr (r, s1)" by (rule call_state_Insert)
  then obtain r where "Insert key val s = Inr (r, s1)" ..
  with assms(1,2) show ?thesis by (intro Insert_aligned) simp_all
next
  case (Call_Erase key)
  with assms(3) have "call_state (Call_Erase key) s = Inr s1" by simp
  then have "\<exists>r. Erase key s = Inr (r, s1)" by (rule call_state_Erase)
  then obtain r where "Erase key s = Inr (r, s1)" ..
  from Erase_keeps [OF assms(1) this] assms(2) show ?thesis by simp
next
  case Call_Clear
  with assms(3) have "s1 = Clear s" by simp
  with assms(2) show ?thesis by (simp add: Clear_def)
qed

lemma run_aligned:
  "invar s \<Longrightarrow> 0 < buckets_f s \<and> mutex_size s dvd buckets_f s \<Longrightarrow> run cs s = Inr s1 \<Longrightarrow>
   0 < buckets_f s1 \<and> mutex_size s1 dvd buckets_f s1"
proof (induction cs arbitrary: s)
  case Nil
  then show ?case by simp
next
  case (Cons c cs)
  from run_step [OF Cons.prems(3)] obtain s2
    where c: "call_state c s = Inr s2" and r: "run cs s2 = Inr s1"
    by blast
  have i2: "invar s2" using call_state_keeps [OF Cons.prems(1) c] by simp
  have a2: "0 < buckets_f s2 \<and> mutex_size s2 dvd buckets_f s2"
    using Cons.prems(1,2) c by (rule call_state_aligned)
  from i2 a2 r show ?case by (rule Cons.IH)
qed

lemma reachable_aligned:
  assumes "ConcurrentHashMap es et h = Inr s0" and "sint es = - 1 \<or> 0 < sint es"
    and "run cs s0 = Inr s"
  shows "0 < buckets_f s \<and> mutex_size s dvd buckets_f s \<and>
         (\<forall>key. idx s key mod mutex_size s = m_idx s key)"
proof -
  have i: "invar s0" using ctor_invar [OF assms(1)] by simp
  have a: "0 < buckets_f s0 \<and> mutex_size s0 dvd buckets_f s0"
    using assms(1,2) by (rule ctor_aligned)
  from i a assms(3) have "0 < buckets_f s \<and> mutex_size s dvd buckets_f s" by (rule run_aligned)
  then show ?thesis by (simp add: aligned_lock)
qed

lemma negative_size_map:
  "(ConcurrentHashMap (- 5) 9 h :: error + ('k, 'v) concurrent_hash_map) =
   Inr \<lparr>table_f = [[], []], mutex_size = 9, size_f = 0, buckets_f = 2, hasher_f = h\<rparr>"
proof -
  have t: "to_size_t (max 8 (sint (9 :: 32 word))) = 9" by (simp add: to_size_t_def)
  have e: "to_size_t (int_div (sint (- 5 :: 32 word) + int kLoadFactor - 1) (int kLoadFactor)) =
           2 ^ 64 - 1"
    by (simp add: to_size_t_def int_div_def kLoadFactor_def)
  have r: "((2 ^ 64 - 1) :: nat) mod 9 = 6" by simp
  have w: "((2 ^ 64 - 1 + 9 - 6) :: nat) mod 2 ^ 64 = 2" by simp
  have two: "replicate 2 ([] :: ('k \<times> 'v) list) = [[], []]" by (simp add: numeral_2_eq_2)
  have u: "sint (- 5 :: 32 word) \<noteq> kUndefinedSize" by (simp add: kUndefinedSize_def)
  have o: "\<not> INT_MAX < sint (- 5 :: 32 word) + int kLoadFactor"
    by (simp add: INT_MAX_def kLoadFactor_def)
  have "(table_resize 2 :: error + ('k, 'v) chain list) = Inr (replicate 2 [])"
    by (rule table_resize_fits) simp
  then have z: "(table_resize 2 :: error + ('k, 'v) chain list) = Inr [[], []]"
    by (simp only: two)
  show ?thesis
    unfolding ConcurrentHashMap_def Let_def t e
    by (simp only: u o r w if_False) (simp add: z)
qed

section \<open>The operations on a map with at least one bucket\<close>

text \<open>
  On a map that satisfies the invariant and has a bucket: when the key is stored,
  \<^verbatim>\<open>Insert\<close> returns \<open>False\<close> and the map, hence the stored value, is unchanged. When
  the key is not stored, \<^verbatim>\<open>Insert\<close> returns \<open>True\<close>; the size counter is one more; the
  key now maps to the new value and every other key to what it mapped to; the element
  is in the chain that its key hashes to under the bucket count of the result; and when
  the load test of line 88 fails, the table of the result is the old table with the
  element pushed to the back of chain \<open>hash % bucket_count\<close>.
\<close>

lemma Insert_effect:
  assumes "invar s" and "0 < buckets_f s"
  shows "(\<forall>v. Find key s = Inr (Some v) \<longrightarrow>
            Insert key val s = Inr (False, s)) \<and>
         (Find key s = Inr None \<longrightarrow>
            (\<exists>s2. Insert key val s = Inr (True, s2) \<and>
               size_f s2 = size_f s + 1 \<and>
               Find key s2 = Inr (Some val) \<and>
               (\<forall>k. k \<noteq> key \<longrightarrow> Find k s2 = Find k s) \<and>
               contents s2 = (contents s)(key \<mapsto> val) \<and>
               (key, val) \<in> set (table_f s2 ! idx s2 key) \<and>
               (\<not> load_breach (size_f s + 1) (buckets_f s) \<longrightarrow>
                  buckets_f s2 = buckets_f s \<and>
                  table_f s2 = (table_f s)[idx s key := table_f s ! idx s key @ [(key, val)]])))"
proof (intro conjI allI impI)
  fix v
  assume "Find key s = Inr (Some v)"
  then have "contents s key \<noteq> None" using Find_contents [OF assms, of key] by simp
  with assms show "Insert key val s = Inr (False, s)" by (rule Insert_present)
next
  assume "Find key s = Inr None"
  then have absent: "contents s key = None" using Find_contents [OF assms, of key] by simp
  from Insert_absent [OF assms absent, of val] obtain s2 where
    ins: "Insert key val s = Inr (True, s2)" and inv2: "invar s2"
    and c2: "contents s2 = (contents s)(key \<mapsto> val)" and z2: "size_f s2 = size_f s + 1"
    and p2: "0 < buckets_f s2"
    by blast
  have F: "Find k s2 = Inr (contents s2 k)" for k using inv2 p2 by (rule Find_contents)
  have f1: "Find key s2 = Inr (Some val)" using F [of key] c2 by simp
  have f2: "\<forall>k. k \<noteq> key \<longrightarrow> Find k s2 = Find k s"
    using F c2 Find_contents [OF assms] by simp
  have "contents s2 key = Some val" using c2 by simp
  then have "(key, val) \<in> set (concat (table_f s2))"
    using contents_Some_iff [OF inv2] by simp
  from stored_in_home [OF inv2 this]
  have home: "(key, val) \<in> set (table_f s2 ! idx s2 key)" by simp
  have quiet: "\<not> load_breach (size_f s + 1) (buckets_f s) \<longrightarrow>
      buckets_f s2 = buckets_f s \<and>
      table_f s2 = (table_f s)[idx s key := table_f s ! idx s key @ [(key, val)]]"
  proof
    assume "\<not> load_breach (size_f s + 1) (buckets_f s)"
    with Insert_absent_eq [OF assms absent, of val] ins
    have "s2 = s\<lparr>table_f := (table_f s)[idx s key := table_f s ! idx s key @ [(key, val)]],
                  size_f := size_f s + 1\<rparr>"
      by simp
    then show "buckets_f s2 = buckets_f s \<and>
      table_f s2 = (table_f s)[idx s key := table_f s ! idx s key @ [(key, val)]]"
      by simp
  qed
  from ins z2 f1 f2 c2 home quiet
  show "\<exists>s2. Insert key val s = Inr (True, s2) \<and>
               size_f s2 = size_f s + 1 \<and>
               Find key s2 = Inr (Some val) \<and>
               (\<forall>k. k \<noteq> key \<longrightarrow> Find k s2 = Find k s) \<and>
               contents s2 = (contents s)(key \<mapsto> val) \<and>
               (key, val) \<in> set (table_f s2 ! idx s2 key) \<and>
               (\<not> load_breach (size_f s + 1) (buckets_f s) \<longrightarrow>
                  buckets_f s2 = buckets_f s \<and>
                  table_f s2 = (table_f s)[idx s key := table_f s ! idx s key @ [(key, val)]])"
    by blast
qed

lemma Insert_effect_sample:
  "invar sample_map \<and> 0 < buckets_f sample_map \<and>
   Find 9 sample_map = Inr (Some ''i'') \<and>
   Insert 9 ''z'' sample_map = Inr (False, sample_map) \<and>
   Find 17 sample_map = Inr None \<and>
   \<not> load_breach (size_f sample_map + 1) (buckets_f sample_map) \<and>
   (\<exists>s2. Insert 17 ''q'' sample_map = Inr (True, s2) \<and> size_f s2 = 4 \<and>
      Find 17 s2 = Inr (Some ''q'') \<and> Find 9 s2 = Inr (Some ''i'') \<and>
      table_f s2 = [[(8, ''h'')], [(1, ''a''), (9, ''i''), (17, ''q'')], [], [], [], [], [], []])"
proof -
  have p: "0 < buckets_f sample_map" by (simp add: sample_map_def)
  have f9: "Find 9 sample_map = Inr (Some ''i'')"
    by (simp add: Find_def locate_def idx_def sample_map_def key_hash_def)
  have f17: "Find 17 sample_map = Inr None"
    by (simp add: Find_def locate_def idx_def sample_map_def key_hash_def)
  have q: "\<not> load_breach (size_f sample_map + 1) (buckets_f sample_map)"
    by (simp add: load_breach_def kLoadFactor_def sample_map_def)
  have i17: "idx sample_map 17 = 1" by (simp add: idx_def sample_map_def key_hash_def)
  have z: "size_f sample_map = 3" by (simp add: sample_map_def)
  have t: "(table_f sample_map)[1 := table_f sample_map ! 1 @ [(17, ''q'')]] =
     [[(8, ''h'')], [(1, ''a''), (9, ''i''), (17, ''q'')], [], [], [], [], [], []]"
    by (simp add: sample_map_def)
  note c3 = Insert_effect [OF invar_sample p]
  have a: "Insert 9 ''z'' sample_map = Inr (False, sample_map)"
    using c3 [of 9 "''z''"] f9 by blast
  from c3 [of 17 "''q''"] f17 q obtain s2 where
    "Insert 17 ''q'' sample_map = Inr (True, s2)" "size_f s2 = size_f sample_map + 1"
    "Find 17 s2 = Inr (Some ''q'')" "\<forall>k. k \<noteq> 17 \<longrightarrow> Find k s2 = Find k sample_map"
    "table_f s2 = (table_f sample_map)[idx sample_map 17 :=
        table_f sample_map ! idx sample_map 17 @ [(17, ''q'')]]"
    by blast
  then have "Insert 17 ''q'' sample_map = Inr (True, s2) \<and> size_f s2 = 4 \<and>
      Find 17 s2 = Inr (Some ''q'') \<and> Find 9 s2 = Inr (Some ''i'') \<and>
      table_f s2 = [[(8, ''h'')], [(1, ''a''), (9, ''i''), (17, ''q'')], [], [], [], [], [], []]"
    using z i17 t f9 by simp
  then show ?thesis using invar_sample p f9 a f17 q by blast
qed

text \<open>
  On a map that satisfies the invariant and has a bucket, \<^verbatim>\<open>Erase\<close> returns
  \<open>True\<close> exactly when the key is stored. In that case the size counter is one less
  and the stored elements are the old ones without the one element of that key; in the
  other case the map is unchanged. In both cases \<^verbatim>\<open>Find\<close> of the key is empty
  afterwards, every other key maps to what it mapped to, and the bucket count and the
  length of the table are unchanged.
\<close>

lemma Erase_effect:
  assumes "invar s" and "0 < buckets_f s"
  shows "\<exists>r s1. Erase key s = Inr (r, s1) \<and>
           (r \<longleftrightarrow> Find key s \<noteq> Inr None) \<and>
           (r \<longleftrightarrow> key \<in> fst ` set (concat (table_f s))) \<and>
           Find key s1 = Inr None \<and>
           (\<forall>k. k \<noteq> key \<longrightarrow> Find k s1 = Find k s) \<and>
           buckets_f s1 = buckets_f s \<and> length (table_f s1) = length (table_f s) \<and>
           (r \<longrightarrow> size_f s1 + 1 = size_f s \<and>
                 concat (table_f s1) = filter (\<lambda>el. fst el \<noteq> key) (concat (table_f s))) \<and>
           (\<not> r \<longrightarrow> s1 = s)"
proof (cases "contents s key")
  case None
  have e: "Erase key s = Inr (False, s)" using assms None by (rule Erase_absent)
  have f: "Find key s = Inr None" using Find_contents [OF assms, of key] None by simp
  have k: "key \<notin> fst ` set (concat (table_f s))" using None by (simp add: contents_None_iff)
  from e f k show ?thesis by (intro exI [of _ False] exI [of _ s]) simp
next
  case (Some v)
  then have p: "contents s key \<noteq> None" by simp
  let ?s1 = "s\<lparr>table_f := (table_f s)[idx s key :=
                      filter (\<lambda>el. fst el \<noteq> key) (table_f s ! idx s key)],
                  size_f := size_f s - 1\<rparr>"
  have e: "Erase key s = Inr (True, ?s1)" using assms p by (rule Erase_present)
  have i1: "invar ?s1" using assms p by (rule invar_erase)
  have p1: "0 < buckets_f ?s1" using assms(2) by simp
  have c1: "contents ?s1 = (contents s)(key := None)" using assms by (rule contents_erase)
  have F1: "Find k ?s1 = Inr (contents ?s1 k)" for k using i1 p1 by (rule Find_contents)
  have f: "Find key s \<noteq> Inr None" using Find_contents [OF assms, of key] Some by simp
  have k: "key \<in> fst ` set (concat (table_f s))" using p by (simp add: contents_None_iff)
  have f1: "Find key ?s1 = Inr None" using F1 [of key] c1 by simp
  have f2: "\<forall>k. k \<noteq> key \<longrightarrow> Find k ?s1 = Find k s"
    using F1 c1 Find_contents [OF assms] by simp
  have z: "size_f ?s1 + 1 = size_f s" using size_erase [OF assms(1) p] by simp
  have c: "concat (table_f ?s1) = filter (\<lambda>el. fst el \<noteq> key) (concat (table_f s))"
    using concat_filter_home [OF assms, of key] by simp
  have b: "buckets_f ?s1 = buckets_f s" "length (table_f ?s1) = length (table_f s)" by simp_all
  from e f k f1 f2 z c b show ?thesis by (intro exI [of _ True] exI [of _ ?s1]) simp
qed

lemma Erase_effect_sample:
  "invar sample_map \<and> 0 < buckets_f sample_map \<and>
   Erase 1 sample_map =
     Inr (True, \<lparr>table_f = [[(8, ''h'')], [(9, ''i'')], [], [], [], [], [], []],
                 mutex_size = 8, size_f = 2, buckets_f = 8, hasher_f = key_hash\<rparr>) \<and>
   Erase 17 sample_map = Inr (False, sample_map) \<and>
   (\<exists>r s1. Erase 1 sample_map = Inr (r, s1) \<and> r \<and> Find 1 s1 = Inr None \<and>
      size_f s1 + 1 = size_f sample_map \<and> buckets_f s1 = buckets_f sample_map)"
proof -
  have p: "0 < buckets_f sample_map" by (simp add: sample_map_def)
  have e1: "Erase 1 sample_map =
     Inr (True, \<lparr>table_f = [[(8, ''h'')], [(9, ''i'')], [], [], [], [], [], []],
                 mutex_size = 8, size_f = 2, buckets_f = 8, hasher_f = key_hash\<rparr>)"
    by (simp add: Erase_def locate_def idx_def sample_map_def key_hash_def)
  have e17: "Erase 17 sample_map = Inr (False, sample_map)"
    by (simp add: Erase_def locate_def idx_def sample_map_def key_hash_def)
  from Erase_effect [OF invar_sample p, of 1] obtain r s1 where
    a: "Erase 1 sample_map = Inr (r, s1)" and b: "Find 1 s1 = Inr None"
    and c: "buckets_f s1 = buckets_f sample_map" and d: "r \<longrightarrow> size_f s1 + 1 = size_f sample_map"
    by blast
  from a e1 have r by simp
  with a b c d have "\<exists>r s1. Erase 1 sample_map = Inr (r, s1) \<and> r \<and> Find 1 s1 = Inr None \<and>
      size_f s1 + 1 = size_f sample_map \<and> buckets_f s1 = buckets_f sample_map"
    by blast
  with invar_sample p e1 e17 show ?thesis by blast
qed

text \<open>
  On a map that satisfies the invariant and has a bucket: \<^verbatim>\<open>Find\<close> returns the stored
  value of a key that is in the table and the empty result for a key that is not;
  \<^verbatim>\<open>At\<close> returns the stored value of a key that is in the table, and it throws
  \<^verbatim>\<open>out_of_range\<close> exactly when the key is not in the table. Both methods are
  \<^verbatim>\<open>const\<close>, so the embedding gives them no state to return: the map after the call is
  the map before it.
\<close>

lemma Find_At_effect:
  assumes "invar s" and "0 < buckets_f s"
  shows "((key, v) \<in> set (concat (table_f s)) \<longrightarrow>
            Find key s = Inr (Some v) \<and> At key s = Inr v) \<and>
         (key \<notin> fst ` set (concat (table_f s)) \<longrightarrow>
            Find key s = Inr None \<and> At key s = Inl OutOfRange) \<and>
         (At key s = Inl OutOfRange \<longleftrightarrow> key \<notin> fst ` set (concat (table_f s))) \<and>
         (\<forall>e. Find key s \<noteq> Inl e)"
proof -
  have F: "Find key s = Inr (contents s key)" using assms by (rule Find_contents)
  have A: "At key s = (case contents s key of Some v \<Rightarrow> Inr v | None \<Rightarrow> Inl OutOfRange)"
    using assms by (rule At_contents)
  have S: "contents s key = Some v \<longleftrightarrow> (key, v) \<in> set (concat (table_f s))"
    using assms(1) by (rule contents_Some_iff)
  have N: "contents s key = None \<longleftrightarrow> key \<notin> fst ` set (concat (table_f s))"
    by (rule contents_None_iff)
  show ?thesis
  proof (cases "contents s key")
    case None
    with F A S N show ?thesis by simp
  next
    case (Some w)
    with F A S N show ?thesis by simp
  qed
qed

lemma Find_At_effect_sample:
  "invar sample_map \<and> 0 < buckets_f sample_map \<and>
   (9, ''i'') \<in> set (concat (table_f sample_map)) \<and>
   Find 9 sample_map = Inr (Some ''i'') \<and> At 9 sample_map = Inr ''i'' \<and>
   17 \<notin> fst ` set (concat (table_f sample_map)) \<and>
   Find 17 sample_map = Inr None \<and> At 17 sample_map = Inl OutOfRange"
proof -
  have p: "0 < buckets_f sample_map" by (simp add: sample_map_def)
  have a: "(9, ''i'') \<in> set (concat (table_f sample_map))" by (simp add: sample_map_def)
  have b: "17 \<notin> fst ` set (concat (table_f sample_map))" by (simp add: sample_map_def)
  from Find_At_effect [OF invar_sample p, of 9 "''i''"] a
  have "Find 9 sample_map = Inr (Some ''i'') \<and> At 9 sample_map = Inr ''i''" by blast
  moreover from Find_At_effect [OF invar_sample p, of 17 "''i''"] b
  have "Find 17 sample_map = Inr None \<and> At 17 sample_map = Inl OutOfRange" by blast
  ultimately show ?thesis using invar_sample p a b by blast
qed

text \<open>
  On a map that satisfies the invariant and has a bucket, after \<^verbatim>\<open>Clear\<close> every chain
  is empty, the size counter is zero, \<^verbatim>\<open>Find\<close> returns the empty result and \<^verbatim>\<open>At\<close>
  throws \<^verbatim>\<open>out_of_range\<close> for every key, and the bucket count, the length of the table
  and the number of mutexes are what they were.
\<close>

lemma Clear_effect:
  assumes "invar s" and "0 < buckets_f s"
  shows "(\<forall>vec \<in> set (table_f (Clear s)). vec = []) \<and>
         size_f (Clear s) = 0 \<and> Size (Clear s) = 0 \<and>
         (\<forall>key. Find key (Clear s) = Inr None \<and> At key (Clear s) = Inl OutOfRange) \<and>
         buckets_f (Clear s) = buckets_f s \<and>
         length (table_f (Clear s)) = length (table_f s) \<and>
         mutex_size (Clear s) = mutex_size s"
proof -
  have i: "invar (Clear s)" using assms(1) by (rule invar_Clear)
  have p: "0 < buckets_f (Clear s)" using assms(2) by (simp add: Clear_def)
  have c: "contents (Clear s) = Map.empty" by (rule contents_Clear)
  have "Find key (Clear s) = Inr None \<and> At key (Clear s) = Inl OutOfRange" for key
    using Find_contents [OF i p, of key] At_contents [OF i p, of key] c by simp
  moreover have "\<forall>vec \<in> set (table_f (Clear s)). vec = []" by (simp add: Clear_def)
  moreover have "size_f (Clear s) = 0" "Size (Clear s) = 0" "buckets_f (Clear s) = buckets_f s"
    "length (table_f (Clear s)) = length (table_f s)" "mutex_size (Clear s) = mutex_size s"
    by (simp_all add: Clear_def Size_def)
  ultimately show ?thesis by blast
qed

lemma Clear_effect_sample:
  "invar sample_map \<and> 0 < buckets_f sample_map \<and>
   table_f (Clear sample_map) = [[], [], [], [], [], [], [], []] \<and>
   size_f (Clear sample_map) = 0 \<and>
   Find 9 (Clear sample_map) = Inr None \<and> At 9 (Clear sample_map) = Inl OutOfRange \<and>
   buckets_f (Clear sample_map) = 8 \<and> mutex_size (Clear sample_map) = 8"
proof -
  have p: "0 < buckets_f sample_map" by (simp add: sample_map_def)
  have t: "table_f (Clear sample_map) = [[], [], [], [], [], [], [], []]"
    by (simp add: Clear_def sample_map_def)
  have b: "buckets_f sample_map = 8" "mutex_size sample_map = 8" by (simp_all add: sample_map_def)
  from Clear_effect [OF invar_sample p] t b invar_sample p show ?thesis by simp
qed

subsection \<open>A length that no table can have\<close>

lemma huge_size_throws:
  "(ConcurrentHashMap (- 100) 8 h :: error + ('k, 'v) concurrent_hash_map) = Inl LengthError"
proof -
  have t: "to_size_t (max 8 (sint (8 :: 32 word))) = 8" by (simp add: to_size_t_def)
  have e: "to_size_t (int_div (sint (- 100 :: 32 word) + int kLoadFactor - 1) (int kLoadFactor)) =
           2 ^ 64 - 32"
    by (simp add: to_size_t_def int_div_def kLoadFactor_def)
  have r: "((2 ^ 64 - 32) :: nat) mod 8 = 0" by simp
  have z: "(table_resize 18446744073709551584 :: error + ('k, 'v) chain list) = Inl LengthError"
    by (simp add: table_resize_def table_max_size_def)
  have u: "sint (- 100 :: 32 word) \<noteq> kUndefinedSize" by (simp add: kUndefinedSize_def)
  have o: "\<not> INT_MAX < sint (- 100 :: 32 word) + int kLoadFactor"
    by (simp add: INT_MAX_def kLoadFactor_def)
  show ?thesis
    unfolding ConcurrentHashMap_def Let_def t e
    by (simp only: u o r if_False) (simp add: z)
qed

subsection \<open>The map without buckets\<close>

lemma bucketless_ctor: "ConcurrentHashMap 0 8 key_hash = Inr bucketless_map"
  unfolding bucketless_map_def by (rule zero_size_map)

lemma bucketless_locate: "locate bucketless_map key = Inl DivisionByZero"
  by (simp add: locate_def bucketless_map_def)

section \<open>The claims\<close>

text \<open>
  C1. The claim: for every construction input, and after every sequence of calls, the
  bucket count is a positive multiple of the partition count. The constructor does not
  establish this. With \<^verbatim>\<open>expected_size = 0\<close> line 57 computes \<open>(0 + 3 - 1) / 3 = 0\<close>,
  line 58 finds \<open>0 % 8 = 0\<close> and line 63 resizes the table to no bucket at all, while
  eight mutexes exist; the first \<^verbatim>\<open>Insert\<close> on that map then divides by zero at line 77.
  With \<^verbatim>\<open>expected_size = -5\<close> and nine threads the unsigned arithmetic of lines 58 to
  61 wraps to two buckets under nine mutexes. For \<^verbatim>\<open>expected_size = -1\<close> and for every
  positive \<^verbatim>\<open>expected_size\<close> the claim holds in all reachable states
  (\<open>reachable_aligned\<close>). The theorem evaluates the constructor at the two failing
  arguments, and \<^verbatim>\<open>Insert\<close> on the map without buckets.
\<close>

theorem C1_zero_buckets:
  "(ConcurrentHashMap 0 8 h :: error + ('k, 'v) concurrent_hash_map) =
     Inr \<lparr>table_f = [], mutex_size = 8, size_f = 0, buckets_f = 0, hasher_f = h\<rparr> \<and>
   Insert key val \<lparr>table_f = [], mutex_size = 8, size_f = 0, buckets_f = 0, hasher_f = h\<rparr> =
     Inl DivisionByZero \<and>
   (ConcurrentHashMap (- 5) 9 h :: error + ('k, 'v) concurrent_hash_map) =
     Inr \<lparr>table_f = [[], []], mutex_size = 9, size_f = 0, buckets_f = 2, hasher_f = h\<rparr> \<and>
   \<not> (9 :: nat) dvd 2"
proof -
  have "(ConcurrentHashMap 0 8 h :: error + ('k, 'v) concurrent_hash_map) =
     Inr \<lparr>table_f = [], mutex_size = 8, size_f = 0, buckets_f = 0, hasher_f = h\<rparr>"
    by (rule zero_size_map)
  moreover have "Insert key val
      \<lparr>table_f = [], mutex_size = 8, size_f = 0, buckets_f = 0, hasher_f = h\<rparr> =
     Inl DivisionByZero"
    by (simp add: Insert_def locate_def)
  moreover have "\<not> (9 :: nat) dvd 2" by simp
  ultimately show ?thesis using negative_size_map [of h] by simp
qed

text \<open>
  C2. The claim: in every reachable state the lock index \<open>hash % partition_count\<close> is
  the partition \<open>(hash % bucket_count) % partition_count\<close> of the bucket that the
  operation touches. This needs the bucket count to be a multiple of the number of
  mutexes (\<open>aligned_lock\<close>), which the constructor does not establish for a negative
  \<^verbatim>\<open>expected_size\<close> other than \<open>-1\<close> (\<open>reachable_aligned\<close> covers the other
  arguments). With \<^verbatim>\<open>expected_size = -5\<close> and nine threads, line 57 computes
  \<open>(-5 + 3 - 1) / 3 = -1\<close>; on line 58 the \<^verbatim>\<open>int\<close> is converted to \<^verbatim>\<open>size_t\<close>, so
  the remainder is \<open>(2 ^ 64 - 1) % 9 = 6\<close>, and line 61 wraps to \<open>2 ^ 64 - 1 + 9 - 6 = 2\<close>
  buckets under nine mutexes. In that map the keys 1 and 9 share bucket 1, but key 1
  takes lock 1 and key 9 takes lock 0. The theorem evaluates the constructor and the
  two indices.
\<close>

theorem C2_lock_misses_bucket:
  "ConcurrentHashMap (- 5) 9 key_hash = Inr skewed_map \<and>
   buckets_f skewed_map = 2 \<and> mutex_size skewed_map = 9 \<and>
   m_idx skewed_map 9 = 0 \<and> idx skewed_map 9 = 1 \<and>
   idx skewed_map 9 mod mutex_size skewed_map \<noteq> m_idx skewed_map 9 \<and>
   m_idx skewed_map 1 = 1 \<and> idx skewed_map 1 = 1 \<and>
   Insert 9 ''i'' skewed_map =
     Inr (True, \<lparr>table_f = [[], [(9, ''i'')]], mutex_size = 9, size_f = 1, buckets_f = 2,
                 hasher_f = key_hash\<rparr>)"
proof -
  have c: "ConcurrentHashMap (- 5) 9 key_hash = Inr skewed_map"
    unfolding skewed_map_def by (rule negative_size_map)
  have b: "buckets_f skewed_map = 2" and m: "mutex_size skewed_map = 9"
    by (simp_all add: skewed_map_def)
  have m9: "m_idx skewed_map 9 = 0" by (simp add: m_idx_def key_hash_def skewed_map_def)
  have i9: "idx skewed_map 9 = 1" by (simp add: idx_def key_hash_def skewed_map_def)
  have m1: "m_idx skewed_map 1 = 1" by (simp add: m_idx_def key_hash_def skewed_map_def)
  have i1: "idx skewed_map 1 = 1" by (simp add: idx_def key_hash_def skewed_map_def)
  have ne: "idx skewed_map 9 mod mutex_size skewed_map \<noteq> m_idx skewed_map 9"
    using m9 i9 m by simp
  have l: "locate skewed_map 9 = Inr 1" using i9 by (simp add: locate_def skewed_map_def)
  have ins: "Insert 9 ''i'' skewed_map =
     Inr (True, \<lparr>table_f = [[], [(9, ''i'')]], mutex_size = 9, size_f = 1, buckets_f = 2,
                 hasher_f = key_hash\<rparr>)"
    by (simp add: Insert_def l load_breach_def kLoadFactor_def) (simp add: skewed_map_def)
  from c b m m9 i9 ne m1 i1 ins show ?thesis by blast
qed

text \<open>
  C3. The claim: \<^verbatim>\<open>Insert\<close> of a key that is not stored pushes the element to the back of
  chain \<open>hash % bucket_count\<close>, adds one to the size counter and returns \<open>True\<close>. The
  map that \<^verbatim>\<open>ConcurrentHashMap(0, 8)\<close> returns has no bucket (the defect of C1). It
  stores no key, and \<^verbatim>\<open>Insert\<close> on it evaluates \<^verbatim>\<open>hash % buckets_\<close> with a zero
  divisor at line 77: it neither stores the element nor returns. On every map that
  satisfies the invariant and has at least one bucket the claim holds
  (\<open>Insert_effect\<close>). The theorem evaluates the constructor and the call.
\<close>

theorem C3_Insert_without_bucket:
  "ConcurrentHashMap 0 8 key_hash = Inr bucketless_map \<and>
   concat (table_f bucketless_map) = [] \<and>
   Insert 7 ''g'' bucketless_map = Inl DivisionByZero"
proof -
  have "concat (table_f bucketless_map) = []" by (simp add: bucketless_map_def)
  moreover have "Insert 7 ''g'' bucketless_map = Inl DivisionByZero"
    by (simp add: Insert_def bucketless_locate)
  ultimately show ?thesis using bucketless_ctor by blast
qed

text \<open>
  C4. On a map that satisfies the invariant and has a bucket, when the load test of
  line 17 holds, \<^verbatim>\<open>Rehash\<close> returns a map in which every key maps to what it mapped
  to before (a stored key keeps its value, a key that was not stored is still not
  stored), the stored elements are the same, and every stored element is in the chain
  \<open>hash % new bucket count\<close>.
\<close>

theorem C4_Rehash_keeps_contents:
  assumes "invar s" and "0 < buckets_f s" and "load_breach (size_f s) (buckets_f s)"
  shows "\<exists>s1. Rehash s = Inr s1 \<and>
           (\<forall>k. Find k s1 = Find k s) \<and>
           contents s1 = contents s \<and>
           mset (concat (table_f s1)) = mset (concat (table_f s)) \<and>
           (\<forall>el \<in> set (concat (table_f s)).
              el \<in> set (table_f s1 ! (unat (hasher_f s (fst el)) mod buckets_f s1))) \<and>
           buckets_f s1 = new_bucket_count s \<and> length (table_f s1) = buckets_f s1"
proof -
  let ?n = "new_bucket_count s"
  let ?s1 = "s\<lparr>table_f := move_table (hasher_f s) ?n (table_f s) (replicate ?n []),
               buckets_f := ?n\<rparr>"
  have m: "0 < mutex_size s" using assms(1) by (rule invar_mutex)
  have "buckets_f s < ?n" using m assms(2,3) by (rule new_bucket_count_pos)
  then have n: "0 < ?n" by simp
  have r: "Rehash s = Inr ?s1" using m assms(2,3) by (rule Rehash_grow)
  have i1: "invar ?s1" using assms(1) n by (rule invar_regroup)
  have p1: "0 < buckets_f ?s1" using n by simp
  have c1: "contents ?s1 = contents s" using assms(1) n by (rule contents_regroup)
  have f: "\<forall>k. Find k ?s1 = Find k s"
    using Find_contents [OF i1 p1] Find_contents [OF assms(1,2)] c1 by simp
  have ms: "mset (concat (table_f ?s1)) = mset (concat (table_f s))"
    using regroup_mset [OF n, of "hasher_f s" "table_f s"] by simp
  have home: "\<forall>el \<in> set (concat (table_f s)).
      el \<in> set (table_f ?s1 ! (unat (hasher_f s (fst el)) mod buckets_f ?s1))"
  proof
    fix el
    assume "el \<in> set (concat (table_f s))"
    then have "el \<in> set (concat (table_f ?s1))" using mset_eq_setD [OF ms] by simp
    from stored_in_home [OF i1 this]
    show "el \<in> set (table_f ?s1 ! (unat (hasher_f s (fst el)) mod buckets_f ?s1))"
      by (simp add: idx_def)
  qed
  have l: "buckets_f ?s1 = ?n" "length (table_f ?s1) = buckets_f ?s1"
    by (simp_all add: regroup_length)
  from r f c1 ms home l show ?thesis by blast
qed

theorem C4_Rehash_keeps_contents_witness:
  "invar crowded_map \<and> 0 < buckets_f crowded_map \<and>
   load_breach (size_f crowded_map) (buckets_f crowded_map) \<and>
   (\<exists>s1. Rehash crowded_map = Inr s1 \<and> buckets_f s1 = 32 \<and>
      Find 24 s1 = Inr (Some ''y'') \<and> Find 25 s1 = Inr None \<and>
      (24, ''y'') \<in> set (table_f s1 ! 24))"
proof -
  have p: "0 < buckets_f crowded_map" by (simp add: crowded_map_def)
  have b: "load_breach (size_f crowded_map) (buckets_f crowded_map)"
    by (simp add: load_breach_def kLoadFactor_def crowded_map_def)
  have f24: "Find 24 crowded_map = Inr (Some ''y'')"
    by (simp add: Find_def locate_def idx_def crowded_map_def key_hash_def)
  have f25: "Find 25 crowded_map = Inr None"
    by (simp add: Find_def locate_def idx_def crowded_map_def key_hash_def)
  have n: "new_bucket_count crowded_map = 32"
    by (simp add: new_bucket_count_def crowded_map_def)
  have el: "(24, ''y'') \<in> set (concat (table_f crowded_map))" by (simp add: crowded_map_def)
  have h: "unat (hasher_f crowded_map (fst (24 :: nat, ''y''))) mod 32 = 24"
    by (simp add: crowded_map_def key_hash_def)
  from C4_Rehash_keeps_contents [OF invar_crowded p b] obtain s1 where
    r: "Rehash crowded_map = Inr s1" and f: "\<forall>k. Find k s1 = Find k crowded_map"
    and bk: "buckets_f s1 = new_bucket_count crowded_map"
    and home: "\<forall>el \<in> set (concat (table_f crowded_map)).
              el \<in> set (table_f s1 ! (unat (hasher_f crowded_map (fst el)) mod buckets_f s1))"
    by blast
  from home el have "(24, ''y'') \<in> set (table_f s1 !
       (unat (hasher_f crowded_map (fst (24 :: nat, ''y''))) mod buckets_f s1))"
    by (rule bspec)
  then have "(24, ''y'') \<in> set (table_f s1 ! 24)" using bk n h by simp
  with r f bk n f24 f25 have "Rehash crowded_map = Inr s1 \<and> buckets_f s1 = 32 \<and>
      Find 24 s1 = Inr (Some ''y'') \<and> Find 25 s1 = Inr None \<and>
      (24, ''y'') \<in> set (table_f s1 ! 24)"
    by simp
  with invar_crowded p b show ?thesis by blast
qed

text \<open>
  C5. With at least one mutex and one bucket: when the load test of line 17 holds
  (\<open>ceil(size / bucket_count) > kLoadFactor\<close>), \<^verbatim>\<open>Rehash\<close> installs as bucket count the
  least multiple of the number of mutexes that is at least the size, the table has that
  many chains, and the new bucket count is not below the old one; when the test fails,
  \<^verbatim>\<open>Rehash\<close> returns the map as it was.
\<close>

theorem C5_Rehash_bucket_count:
  assumes "0 < mutex_size s" and "0 < buckets_f s"
  shows "(load_breach (size_f s) (buckets_f s) \<longrightarrow>
            (\<exists>s1. Rehash s = Inr s1 \<and>
               mutex_size s dvd buckets_f s1 \<and> size_f s \<le> buckets_f s1 \<and>
               (\<forall>m. mutex_size s dvd m \<and> size_f s \<le> m \<longrightarrow> buckets_f s1 \<le> m) \<and>
               buckets_f s \<le> buckets_f s1 \<and>
               length (table_f s1) = buckets_f s1 \<and>
               size_f s1 = size_f s \<and> mutex_size s1 = mutex_size s)) \<and>
         (\<not> load_breach (size_f s) (buckets_f s) \<longrightarrow> Rehash s = Inr s)"
proof (intro conjI impI)
  assume l: "load_breach (size_f s) (buckets_f s)"
  let ?n = "new_bucket_count s"
  let ?s1 = "s\<lparr>table_f := move_table (hasher_f s) ?n (table_f s) (replicate ?n []),
               buckets_f := ?n\<rparr>"
  have r: "Rehash s = Inr ?s1" using assms l by (rule Rehash_grow)
  have d: "mutex_size s dvd buckets_f ?s1" using new_bucket_count_dvd [of s] by simp
  have g: "size_f s \<le> buckets_f ?s1" using new_bucket_count_ge [OF assms(1)] by simp
  have least: "\<forall>m. mutex_size s dvd m \<and> size_f s \<le> m \<longrightarrow> buckets_f ?s1 \<le> m"
    using new_bucket_count_least [of s] by simp
  have up: "buckets_f s \<le> buckets_f ?s1"
    using new_bucket_count_pos [OF assms l] by simp
  have rest: "length (table_f ?s1) = buckets_f ?s1" "size_f ?s1 = size_f s"
    "mutex_size ?s1 = mutex_size s"
    by (simp_all add: regroup_length)
  from r d g least up rest
  show "\<exists>s1. Rehash s = Inr s1 \<and>
               mutex_size s dvd buckets_f s1 \<and> size_f s \<le> buckets_f s1 \<and>
               (\<forall>m. mutex_size s dvd m \<and> size_f s \<le> m \<longrightarrow> buckets_f s1 \<le> m) \<and>
               buckets_f s \<le> buckets_f s1 \<and>
               length (table_f s1) = buckets_f s1 \<and>
               size_f s1 = size_f s \<and> mutex_size s1 = mutex_size s"
    by blast
next
  assume "\<not> load_breach (size_f s) (buckets_f s)"
  with assms(2) show "Rehash s = Inr s" by (rule Rehash_idle)
qed

theorem C5_Rehash_bucket_count_witness:
  "0 < mutex_size crowded_map \<and> 0 < buckets_f crowded_map \<and>
   load_breach (size_f crowded_map) (buckets_f crowded_map) \<and>
   (\<exists>s1. Rehash crowded_map = Inr s1 \<and> buckets_f s1 = 32 \<and> length (table_f s1) = 32) \<and>
   0 < mutex_size sample_map \<and> 0 < buckets_f sample_map \<and>
   \<not> load_breach (size_f sample_map) (buckets_f sample_map) \<and>
   Rehash sample_map = Inr sample_map"
proof -
  have m: "0 < mutex_size crowded_map" and p: "0 < buckets_f crowded_map"
    by (simp_all add: crowded_map_def)
  have b: "load_breach (size_f crowded_map) (buckets_f crowded_map)"
    by (simp add: load_breach_def kLoadFactor_def crowded_map_def)
  have v: "mutex_size crowded_map = 8" "size_f crowded_map = 25" by (simp_all add: crowded_map_def)
  from C5_Rehash_bucket_count [OF m p] b obtain s1 where
    r: "Rehash crowded_map = Inr s1" and d: "mutex_size crowded_map dvd buckets_f s1"
    and g: "size_f crowded_map \<le> buckets_f s1"
    and least: "\<forall>m. mutex_size crowded_map dvd m \<and> size_f crowded_map \<le> m \<longrightarrow> buckets_f s1 \<le> m"
    and len: "length (table_f s1) = buckets_f s1"
    by blast
  have "buckets_f s1 \<le> 32" using least v by simp
  moreover have "25 \<le> buckets_f s1" using g v by simp
  moreover have "8 dvd buckets_f s1" using d v by simp
  ultimately have "buckets_f s1 = 32" by presburger
  with r len have c: "\<exists>s1. Rehash crowded_map = Inr s1 \<and> buckets_f s1 = 32 \<and> length (table_f s1) = 32"
    by auto
  have m2: "0 < mutex_size sample_map" and p2: "0 < buckets_f sample_map"
    by (simp_all add: sample_map_def)
  have b2: "\<not> load_breach (size_f sample_map) (buckets_f sample_map)"
    by (simp add: load_breach_def kLoadFactor_def sample_map_def)
  from C5_Rehash_bucket_count [OF m2 p2] b2 have "Rehash sample_map = Inr sample_map" by blast
  with m p b c m2 p2 b2 show ?thesis by blast
qed

text \<open>
  C6. In every state that a sequence of completed calls reaches from a constructed map,
  the size counter (what \<^verbatim>\<open>Size()\<close> returns) is the sum of the lengths of all chains.
\<close>

theorem C6_size_is_chain_total:
  assumes "ConcurrentHashMap es et h = Inr s0" and "run cs s0 = Inr s"
  shows "Size s = sum_list (map length (table_f s))"
proof -
  have "invar s" using assms by (rule reachable_invar)
  then show ?thesis unfolding Size_def by (rule invar_size)
qed

theorem C6_size_is_chain_total_witness:
  "\<exists>s0 s. (ConcurrentHashMap (- 1) 8 key_hash :: error + (nat, string) concurrent_hash_map) = Inr s0 \<and>
     run [Call_Insert 1 ''a'', Call_Insert 9 ''i'', Call_Insert 2 ''b'', Call_Erase 2,
          Call_Insert 8 ''h''] s0 = Inr s \<and>
     s = sample_map \<and> Size s = 3 \<and> sum_list (map length (table_f s)) = 3"
proof -
  let ?s0 = "\<lparr>table_f = [[], [], [], [], [], [], [], []], mutex_size = 8, size_f = 0,
         buckets_f = 8, hasher_f = key_hash\<rparr> :: (nat, string) concurrent_hash_map"
  let ?cs = "[Call_Insert 1 ''a'', Call_Insert 9 ''i'', Call_Insert 2 ''b'', Call_Erase 2,
          Call_Insert 8 ''h'']"
  have c: "(ConcurrentHashMap (- 1) 8 key_hash :: error + (nat, string) concurrent_hash_map) = Inr ?s0"
    by (rule default_map)
  have r: "run ?cs ?s0 = Inr sample_map"
    by (simp add: Insert_def Erase_def locate_def idx_def key_hash_def load_breach_def
        kLoadFactor_def sample_map_def)
  have "Size sample_map = sum_list (map length (table_f sample_map))"
    using c r by (rule C6_size_is_chain_total)
  moreover have "sum_list (map length (table_f sample_map)) = 3" by (simp add: sample_map_def)
  ultimately show ?thesis using c r by simp
qed

text \<open>
  C7. The claim: \<^verbatim>\<open>Erase\<close> returns \<open>True\<close> exactly when the key is stored, and
  \<open>False\<close> when it is not. The map that \<^verbatim>\<open>ConcurrentHashMap(0, 8)\<close> returns has no
  bucket (the defect of C1). It stores no key, and \<^verbatim>\<open>Erase\<close> on it evaluates
  \<^verbatim>\<open>hash % buckets_\<close> with a zero divisor at line 98 instead of returning \<open>False\<close>. On
  every map that satisfies the invariant and has at least one bucket the claim holds
  (\<open>Erase_effect\<close>). The theorem evaluates the constructor and the call.
\<close>

theorem C7_Erase_without_bucket:
  "ConcurrentHashMap 0 8 key_hash = Inr bucketless_map \<and>
   concat (table_f bucketless_map) = [] \<and>
   Erase 7 bucketless_map = Inl DivisionByZero"
proof -
  have "concat (table_f bucketless_map) = []" by (simp add: bucketless_map_def)
  moreover have "Erase 7 bucketless_map = Inl DivisionByZero"
    by (simp add: Erase_def bucketless_locate)
  ultimately show ?thesis using bucketless_ctor by blast
qed

text \<open>
  C8. The claim: for a key that is not stored \<^verbatim>\<open>Find\<close> returns the empty result and
  \<^verbatim>\<open>At\<close> throws \<^verbatim>\<open>out_of_range\<close>. The map that \<^verbatim>\<open>ConcurrentHashMap(0, 8)\<close> returns
  has no bucket (the defect of C1). It stores no key, and both methods evaluate
  \<^verbatim>\<open>hash % buckets_\<close> with a zero divisor, at lines 131 and 144, before they reach
  their \<^verbatim>\<open>return\<close> and \<^verbatim>\<open>throw\<close>. On every map that satisfies the invariant and has
  at least one bucket the claim holds (\<open>Find_At_effect\<close>). The theorem evaluates the
  constructor and the two calls.
\<close>

theorem C8_Find_At_without_bucket:
  "ConcurrentHashMap 0 8 key_hash = Inr bucketless_map \<and>
   concat (table_f bucketless_map) = [] \<and>
   Find 7 bucketless_map = Inl DivisionByZero \<and>
   At 7 bucketless_map = Inl DivisionByZero"
proof -
  have "concat (table_f bucketless_map) = []" by (simp add: bucketless_map_def)
  moreover have "Find 7 bucketless_map = Inl DivisionByZero"
    by (simp add: Find_def bucketless_locate)
  moreover have "At 7 bucketless_map = Inl DivisionByZero"
    by (simp add: At_def bucketless_locate)
  ultimately show ?thesis using bucketless_ctor by blast
qed

text \<open>
  C9. The claim: after \<^verbatim>\<open>Clear\<close>, for every key \<^verbatim>\<open>Find\<close> returns the empty result
  and \<^verbatim>\<open>At\<close> throws \<^verbatim>\<open>out_of_range\<close>. On the map without buckets that
  \<^verbatim>\<open>ConcurrentHashMap(0, 8)\<close> returns (the defect of C1), \<^verbatim>\<open>Clear\<close> completes and
  leaves the map as it is, with size zero, no bucket and eight mutexes; \<^verbatim>\<open>Find\<close> and
  \<^verbatim>\<open>At\<close> afterwards evaluate \<^verbatim>\<open>hash % buckets_\<close> with a zero divisor. On every map
  that satisfies the invariant and has at least one bucket the claim holds
  (\<open>Clear_effect\<close>). The theorem evaluates the constructor and the calls.
\<close>

theorem C9_Clear_without_bucket:
  "ConcurrentHashMap 0 8 key_hash = Inr bucketless_map \<and>
   Clear bucketless_map = bucketless_map \<and>
   size_f (Clear bucketless_map) = 0 \<and> buckets_f (Clear bucketless_map) = 0 \<and>
   mutex_size (Clear bucketless_map) = 8 \<and>
   Find 7 (Clear bucketless_map) = Inl DivisionByZero \<and>
   At 7 (Clear bucketless_map) = Inl DivisionByZero"
proof -
  have c: "Clear bucketless_map = bucketless_map" by (simp add: Clear_def bucketless_map_def)
  have "size_f bucketless_map = 0" "buckets_f bucketless_map = 0" "mutex_size bucketless_map = 8"
    by (simp_all add: bucketless_map_def)
  moreover have "Find 7 bucketless_map = Inl DivisionByZero"
    by (simp add: Find_def bucketless_locate)
  moreover have "At 7 bucketless_map = Inl DivisionByZero"
    by (simp add: At_def bucketless_locate)
  ultimately show ?thesis using bucketless_ctor c by simp
qed

text \<open>
  C10. When \<^verbatim>\<open>Insert\<close> finds the key in the chain it scans, it returns \<open>False\<close> with
  the whole map unchanged, in every state, whatever the load: line 80 returns before
  lines 86 to 90. Where the load test holds, a call of \<^verbatim>\<open>Rehash\<close> would have raised
  the bucket count, so the unchanged map shows that the call was not made.
\<close>

theorem C10_duplicate_skips_growth:
  assumes "locate s key = Inr i" and "chain_has key (table_f s ! i)"
  shows "Insert key val s = Inr (False, s) \<and>
         (load_breach (size_f s) (buckets_f s) \<longrightarrow>
            (\<exists>s1. Rehash s = Inr s1 \<and> buckets_f s < buckets_f s1))"
proof -
  from locate_pos [OF assms(1)] have b: "0 < buckets_f s" and m: "0 < mutex_size s" by simp_all
  have "Insert key val s = Inr (False, s)" using assms by (simp add: Insert_def)
  moreover have "load_breach (size_f s) (buckets_f s) \<longrightarrow>
            (\<exists>s1. Rehash s = Inr s1 \<and> buckets_f s < buckets_f s1)"
  proof
    assume l: "load_breach (size_f s) (buckets_f s)"
    have "Rehash s = Inr (s\<lparr>table_f := move_table (hasher_f s) (new_bucket_count s) (table_f s)
                        (replicate (new_bucket_count s) []),
          buckets_f := new_bucket_count s\<rparr>)"
      using m b l by (rule Rehash_grow)
    moreover have "buckets_f s < new_bucket_count s" using m b l by (rule new_bucket_count_pos)
    ultimately show "\<exists>s1. Rehash s = Inr s1 \<and> buckets_f s < buckets_f s1" by simp
  qed
  ultimately show ?thesis by blast
qed

theorem C10_duplicate_skips_growth_witness:
  "locate crowded_map 24 = Inr 0 \<and> chain_has 24 (table_f crowded_map ! 0) \<and>
   load_breach (size_f crowded_map) (buckets_f crowded_map) \<and>
   Insert 24 ''z'' crowded_map = Inr (False, crowded_map) \<and>
   (\<exists>s1. Rehash crowded_map = Inr s1 \<and> buckets_f crowded_map < buckets_f s1)"
proof -
  have l: "locate crowded_map 24 = Inr 0"
    by (simp add: locate_def idx_def crowded_map_def key_hash_def)
  have h: "chain_has 24 (table_f crowded_map ! 0)" by (simp add: crowded_map_def)
  have b: "load_breach (size_f crowded_map) (buckets_f crowded_map)"
    by (simp add: load_breach_def kLoadFactor_def crowded_map_def)
  from C10_duplicate_skips_growth [OF l h, of "''z''"] l h b show ?thesis by blast
qed

end
